theory Spec2Isabelle
  imports Complex_Main
begin

section \<open>The compose generator of cidrx (generate-docker-compose.py)\<close>

text \<open>
  The script builds one nested dictionary, \<open>compose\<close>, and hands it to the YAML
  serialiser. The model follows the script line by line. A Python dictionary keeps
  its keys in insertion order, and the order is part of what the script emits, so a
  dictionary is an association list and \<open>d[k] = v\<close> is \<open>setitem\<close>.
\<close>

subsection \<open>Values handed to the serialiser\<close>

text \<open>
  The values that occur in the script are strings, the interval (a Python float that the
  script only copies), lists and dictionaries. The model is polymorphic in the type
  \<open>'f\<close> of the interval, since no operation is ever applied to it.
\<close>

datatype 'f yaml =
    YStr string
  | YFloat 'f
  | YList "'f yaml list"
  | YDict "(string \<times> 'f yaml) list"

type_synonym 'f dict = "(string \<times> 'f yaml) list"

text \<open>\<open>d[k] = v\<close>: an existing key keeps its position, a new key goes to the end.\<close>

fun setitem :: "'k \<Rightarrow> 'v \<Rightarrow> ('k \<times> 'v) list \<Rightarrow> ('k \<times> 'v) list" where
  "setitem k v [] = [(k, v)]"
| "setitem k v (p # ps) = (if fst p = k then (k, v) # ps else p # setitem k v ps)"

text \<open>\<open>d.get(k)\<close>: the value stored under a key, if any.\<close>

definition getitem :: "('k \<times> 'v) list \<Rightarrow> 'k \<Rightarrow> 'v option" where
  "getitem d k = map_of d k"

definition keys :: "('k \<times> 'v) list \<Rightarrow> 'k list" where
  "keys d = map fst d"

subsection \<open>Formatting integers and splitting strings\<close>

definition digit_char :: "nat \<Rightarrow> char" where
  "digit_char d = ''0123456789'' ! d"

text \<open>\<open>str(n)\<close> for a Python integer: decimal digits, most significant first.\<close>

fun str_nat :: "nat \<Rightarrow> string" where
  "str_nat n = (if n < 10 then [digit_char n] else str_nat (n div 10) @ [digit_char (n mod 10)])"

declare str_nat.simps [simp del]

definition str_int :: "int \<Rightarrow> string" where
  "str_int i = (if i < 0 then CHR ''-'' # str_nat (nat (- i)) else str_nat (nat i))"

text \<open>
  \<open>s.rsplit(sep, 1)\<close>: split once at the last occurrence of the separator; a string
  without the separator is returned whole.
\<close>

definition rsplit1 :: "char \<Rightarrow> string \<Rightarrow> string list" where
  "rsplit1 sep s =
     (if sep \<in> set s
      then [rev (tl (dropWhile (\<lambda>c. c \<noteq> sep) (rev s))), rev (takeWhile (\<lambda>c. c \<noteq> sep) (rev s))]
      else [s])"

subsection \<open>Module constants\<close>

type_synonym 'f range = "string \<times> int \<times> 'f"

definition RANGES :: "real range list" where
  "RANGES =
     [(''172.16.1.0/24'', 4, 0.1),
      (''172.16.2.0/24'', 2, 0.1),
      (''172.16.3.0/24'', 5, 0.1),
      (''172.16.16.0/24'', 33, 0.07)]"

definition PROXY_BUILD :: "'f yaml" where
  "PROXY_BUILD = YDict [(''context'', YStr ''./proxy''), (''dockerfile'', YStr ''Dockerfile'')]"

definition CLIENT_BUILD :: "'f yaml" where
  "CLIENT_BUILD = YDict [(''context'', YStr ''./client''), (''dockerfile'', YStr ''Dockerfile'')]"

definition FILEBEAT_BUILD :: "'f yaml" where
  "FILEBEAT_BUILD = YDict [(''context'', YStr ''./filebeat''), (''dockerfile'', YStr ''Dockerfile'')]"

definition CIDRX_BUILD :: "'f yaml" where
  "CIDRX_BUILD = YDict [(''context'', YStr ''./cidrx''), (''dockerfile'', YStr ''Dockerfile'')]"

definition TARGET_URL :: string where
  "TARGET_URL = ''http://proxy:80/''"

definition OUTPUT_FILE :: string where
  "OUTPUT_FILE = ''docker-compose.yml''"

subsection \<open>generate_compose\<close>

text \<open>\<open>f'net{i+1}'\<close> and \<open>f'client{i+1}_{j}'\<close>, for the index \<open>i\<close> of \<open>enumerate\<close>.\<close>

definition net_name :: "nat \<Rightarrow> string" where
  "net_name i = ''net'' @ str_int (int i + 1)"

definition client_name :: "nat \<Rightarrow> int \<Rightarrow> string" where
  "client_name i j = ''client'' @ str_int (int i + 1) @ ''_'' @ str_int j"

text \<open>The dictionary comprehension \<open>{f'net{i+1}': {} for i in range(len(RANGES))}\<close>.\<close>

definition proxy_nets :: "nat \<Rightarrow> 'f dict" where
  "proxy_nets n = fold (\<lambda>i d. setitem (net_name i) (YDict []) d) [0..<n] []"

definition proxy_service :: "'f dict \<Rightarrow> 'f yaml" where
  "proxy_service nets = YDict
     [(''build'', PROXY_BUILD),
      (''container_name'', YStr ''proxy''),
      (''restart'', YStr ''unless-stopped''),
      (''ports'', YList [YStr ''80'']),
      (''volumes'', YList [YStr ''/tmp:/var/log/nginx:rw'']),
      (''networks'', YDict nets)]"

definition cidrx_service :: "'f dict \<Rightarrow> 'f yaml" where
  "cidrx_service nets = YDict
     [(''build'', CIDRX_BUILD),
      (''container_name'', YStr ''cidrx''),
      (''restart'', YStr ''unless-stopped''),
      (''ports'', YList [YStr ''9000:9000'']),
      (''networks'', YDict nets)]"

definition filebeat_service :: "'f dict \<Rightarrow> 'f yaml" where
  "filebeat_service nets = YDict
     [(''build'', FILEBEAT_BUILD),
      (''container_name'', YStr ''filebeat''),
      (''user'', YStr ''root''),
      (''depends_on'', YList [YStr ''proxy'', YStr ''cidrx'']),
      (''restart'', YStr ''unless-stopped''),
      (''networks'', YDict nets),
      (''volumes'', YList [YStr ''/tmp:/var/log/nginx:ro'',
                           YStr ''filebeat_data:/usr/share/filebeat/data'']),
      (''environment'', YDict [(''INGESTOR_HOST'', YStr ''cidrx:9000''),
                               (''PROXY_CONTAINER_NAME'', YStr ''proxy'')])]"

text \<open>The value stored under \<open>networks[net_name]\<close>.\<close>

definition network_def :: "string \<Rightarrow> 'f yaml" where
  "network_def subnet = YDict
     [(''driver'', YStr ''bridge''),
      (''ipam'', YDict [(''driver'', YStr ''default''),
                        (''config'', YList [YDict [(''subnet'', YStr subnet)]])])]"

text \<open>\<open>base = subnet.rsplit('.', 1)[0]\<close>; the list returned by \<open>rsplit\<close> is never empty.\<close>

definition base_of :: "string \<Rightarrow> string" where
  "base_of subnet = hd (rsplit1 CHR ''.'' subnet)"

text \<open>\<open>f"{base}.{31+j}"\<close>\<close>

definition ipv4_address :: "string \<Rightarrow> int \<Rightarrow> string" where
  "ipv4_address base j = base @ ''.'' @ str_int (31 + j)"

text \<open>The value stored under \<open>services[name]\<close> in the inner loop.\<close>

definition client_service :: "string \<Rightarrow> string \<Rightarrow> string \<Rightarrow> 'f \<Rightarrow> int \<Rightarrow> 'f yaml" where
  "client_service name net base interval j = YDict
     [(''build'', CLIENT_BUILD),
      (''container_name'', YStr name),
      (''depends_on'', YList [YStr ''proxy'']),
      (''networks'', YDict [(net, YDict [(''ipv4_address'', YStr (ipv4_address base j))])]),
      (''environment'', YDict [(''TARGET_URL'', YStr TARGET_URL),
                               (''INTERVAL'', YFloat interval)])]"

text \<open>
  The inner loop \<open>for j in range(1, count+1)\<close>. \<open>[1..count]\<close> is the list of the integers
  from 1 to \<open>count\<close>, empty when \<open>count < 1\<close>, as the Python range is.
\<close>

definition clients_loop :: "nat \<Rightarrow> string \<Rightarrow> string \<Rightarrow> 'f \<Rightarrow> int \<Rightarrow> 'f dict \<Rightarrow> 'f dict" where
  "clients_loop i net base interval count services =
     fold (\<lambda>j services.
             setitem (client_name i j)
               (client_service (client_name i j) net base interval j) services)
          [1..count] services"

text \<open>
  One turn of the outer loop \<open>for i, (subnet, count, interval) in enumerate(RANGES)\<close>,
  on the pair of the two dictionaries it updates.
\<close>

definition segment_step :: "nat \<times> 'f range \<Rightarrow> 'f dict \<times> 'f dict \<Rightarrow> 'f dict \<times> 'f dict" where
  "segment_step = (\<lambda>(i, (subnet, count, interval)) (services, networks).
     (clients_loop i (net_name i) (base_of subnet) interval count services,
      setitem (net_name i) (network_def subnet) networks))"

record 'f compose =
  services :: "'f dict"
  networks :: "'f dict"
  volumes :: "'f dict"

text \<open>
  The errors that the specification names. The script has no \<open>raise\<close> statement and
  no check of its input; the only statement that can fail is the opening of the output
  file.
\<close>

datatype error = InvalidSpec | AddressSpaceExhausted | IOError

text \<open>
  The body of \<open>generate_compose\<close>, with the module constant \<open>RANGES\<close> as its
  argument, up to the dictionary \<open>compose\<close> that is passed to \<open>yaml.dump\<close>.
  Every path through the body reaches that call, so the result is always \<open>Inr\<close>.
  The call itself and the writing of the file are \<open>emit\<close> below.
\<close>

definition generate_compose :: "'f range list \<Rightarrow> error + 'f compose" where
  "generate_compose ranges =
     (let volumes = [(''filebeat_data'', YDict [])];
          nets = proxy_nets (length ranges);
          services = setitem ''proxy'' (proxy_service nets) [];
          services = setitem ''cidrx'' (cidrx_service nets) services;
          services = setitem ''filebeat'' (filebeat_service nets) services;
          (services, networks) = fold segment_step (enumerate 0 ranges) (services, [])
      in Inr \<lparr>services = services, networks = networks, volumes = volumes\<rparr>)"

subsection \<open>Writing the file\<close>

text \<open>
  The last statements of \<open>generate_compose\<close>:
  \<^verbatim>\<open>with open(OUTPUT_FILE, 'w') as f: yaml.dump(compose, f, sort_keys=False)\<close>
  and the \<open>print\<close> of the summary. The dictionary that is dumped has the three keys
  \<open>services\<close>, \<open>networks\<close> and \<open>volumes\<close>, in this order.
\<close>

definition compose_dict :: "'f compose \<Rightarrow> 'f yaml" where
  "compose_dict c = YDict
     [(''services'', YDict (services c)),
      (''networks'', YDict (networks c)),
      (''volumes'', YDict (volumes c))]"

text \<open>
  \<open>f"Generated {OUTPUT_FILE} with {len(services) - 3} clients on {len(networks)} networks."\<close>
\<close>

definition summary :: "'f compose \<Rightarrow> string" where
  "summary c =
     ''Generated '' @ OUTPUT_FILE @ '' with '' @ str_int (int (length (services c)) - 3)
       @ '' clients on '' @ str_int (int (length (networks c))) @ '' networks.''"

text \<open>
  What the script touches outside itself: the files, by path; whether a path can be opened
  for writing; and the lines printed so far.
\<close>

record env =
  files :: "string \<rightharpoonup> string"
  writable :: "string \<Rightarrow> bool"
  stdout :: "string list"

text \<open>
  \<open>yaml.dump\<close> belongs to the YAML library, not to this script, so the serialiser is an
  argument \<open>dump\<close> of the model: it takes the flag \<open>sort_keys\<close> and the value and
  gives the text. Opening the file in mode \<open>'w'\<close> discards what the file held; when the
  file cannot be opened, the exception ends the script before anything is written or
  printed.
\<close>

definition emit :: "(bool \<Rightarrow> 'f yaml \<Rightarrow> string) \<Rightarrow> 'f compose \<Rightarrow> env \<Rightarrow> error + env" where
  "emit dump c e =
     (if writable e OUTPUT_FILE
      then Inr (e\<lparr>files := (files e)(OUTPUT_FILE \<mapsto> dump False (compose_dict c)),
                 stdout := stdout e @ [summary c]\<rparr>)
      else Inl IOError)"

text \<open>One run of the script: the document is built, then written.\<close>

definition run :: "(bool \<Rightarrow> 'f yaml \<Rightarrow> string) \<Rightarrow> 'f range list \<Rightarrow> env \<Rightarrow> error + env" where
  "run dump ranges e =
     (case generate_compose ranges of
        Inl err \<Rightarrow> Inl err
      | Inr c \<Rightarrow> emit dump c e)"

subsection \<open>Reading a document\<close>

text \<open>
  The claims speak of the networks a service is a member of, of its dependencies and of
  the address it is given in a network. These are read off the service definition.
\<close>

fun field :: "string \<Rightarrow> 'f yaml \<Rightarrow> 'f yaml option" where
  "field k (YDict d) = map_of d k"
| "field k _ = None"

fun strings :: "'f yaml list \<Rightarrow> string list" where
  "strings [] = []"
| "strings (YStr s # vs) = s # strings vs"
| "strings (_ # vs) = strings vs"

definition member_networks :: "'f yaml \<Rightarrow> string list" where
  "member_networks svc =
     (case field ''networks'' svc of Some (YDict nets) \<Rightarrow> keys nets | _ \<Rightarrow> [])"

definition depends_on :: "'f yaml \<Rightarrow> string list" where
  "depends_on svc =
     (case field ''depends_on'' svc of Some (YList deps) \<Rightarrow> strings deps | _ \<Rightarrow> [])"

definition assigned_address :: "string \<Rightarrow> 'f yaml \<Rightarrow> string option" where
  "assigned_address net svc =
     (case field ''networks'' svc of
        None \<Rightarrow> None
      | Some nets \<Rightarrow>
          (case field net nets of
             None \<Rightarrow> None
           | Some membership \<Rightarrow>
               (case field ''ipv4_address'' membership of
                  Some (YStr a) \<Rightarrow> Some a
                | _ \<Rightarrow> None)))"

text \<open>The addresses assigned in a network, in the order of the services.\<close>

definition segment_addresses :: "'f compose \<Rightarrow> string \<Rightarrow> string list" where
  "segment_addresses d net =
     List.map_filter (\<lambda>(name, svc). assigned_address net svc) (services d)"

text \<open>The pool of a network definition: \<open>ipam.config[0].subnet\<close>.\<close>

definition pool :: "'f yaml \<Rightarrow> string option" where
  "pool nw =
     (case field ''ipam'' nw of
        None \<Rightarrow> None
      | Some ipam \<Rightarrow>
          (case field ''config'' ipam of
             Some (YList [cfg]) \<Rightarrow>
               (case field ''subnet'' cfg of Some (YStr s) \<Rightarrow> Some s | _ \<Rightarrow> None)
           | _ \<Rightarrow> None))"

subsection \<open>Decimal numbers, IPv4 addresses and CIDR ranges\<close>

text \<open>
  The script never parses an address or a range. The definitions of this subsection say
  what it means for an address to lie within a range, so that the addresses the script
  produces can be compared with the ranges they are produced from.
\<close>

definition is_digit :: "char \<Rightarrow> bool" where
  "is_digit c = (c \<in> set ''0123456789'')"

definition digit_val :: "char \<Rightarrow> nat" where
  "digit_val c = of_char c - 48"

definition nat_of_str :: "string \<Rightarrow> nat" where
  "nat_of_str s = foldl (\<lambda>a c. 10 * a + digit_val c) 0 s"

text \<open>
  A string is the decimal numeral of a number up to a bound when formatting the
  number it reads as gives the string back: digits only, at least one, no leading zero.
\<close>

definition decimal :: "nat \<Rightarrow> string \<Rightarrow> nat option" where
  "decimal bound s =
     (let n = nat_of_str s in if str_nat n = s \<and> n \<le> bound then Some n else None)"

text \<open>\<open>s.split(sep)\<close>: the pieces between the occurrences of the separator.\<close>

fun split_on :: "char \<Rightarrow> string \<Rightarrow> string list" where
  "split_on sep [] = [[]]"
| "split_on sep (c # cs) =
     (if c = sep then [] # split_on sep cs
      else (case split_on sep cs of [] \<Rightarrow> [[c]] | p # ps \<Rightarrow> (c # p) # ps))"

text \<open>A dotted quad \<open>a.b.c.d\<close> with four decimal octets, as the 32-bit number it denotes.\<close>

definition parse_ipv4 :: "string \<Rightarrow> nat option" where
  "parse_ipv4 s =
     (case map (decimal 255) (split_on CHR ''.'' s) of
        [Some a, Some b, Some c, Some d] \<Rightarrow> Some (((a * 256 + b) * 256 + c) * 256 + d)
      | _ \<Rightarrow> None)"

text \<open>A range \<open>address/len\<close>: an IPv4 address and a prefix length of at most 32.\<close>

definition parse_cidr :: "string \<Rightarrow> (nat \<times> nat) option" where
  "parse_cidr s =
     (case split_on CHR ''/'' s of
        [a, p] \<Rightarrow>
          (case (parse_ipv4 a, decimal 32 p) of
             (Some net, Some len) \<Rightarrow> Some (net, len)
           | _ \<Rightarrow> None)
      | _ \<Rightarrow> None)"

text \<open>
  An address lies within a range when both are well formed and the address agrees with
  the address of the range on the leading \<open>len\<close> bits.
\<close>

definition in_cidr :: "string \<Rightarrow> string \<Rightarrow> bool" where
  "in_cidr address cidr =
     (case (parse_ipv4 address, parse_cidr cidr) of
        (Some a, Some (net, len)) \<Rightarrow> a div 2 ^ (32 - len) = net div 2 ^ (32 - len)
      | _ \<Rightarrow> False)"

text \<open>The number after the last dot of an address.\<close>

definition host_number :: "string \<Rightarrow> nat" where
  "host_number a = nat_of_str (last (rsplit1 CHR ''.'' a))"

subsection \<open>The document in closed form\<close>

text \<open>
  What the two loops build, written without the dictionary updates: the three
  infrastructure services, then the clients of each segment, and one network per segment.
\<close>

definition infra_services :: "nat \<Rightarrow> 'f dict" where
  "infra_services n =
     [(''proxy'', proxy_service (proxy_nets n)),
      (''cidrx'', cidrx_service (proxy_nets n)),
      (''filebeat'', filebeat_service (proxy_nets n))]"

definition segment_clients :: "nat \<times> 'f range \<Rightarrow> 'f dict" where
  "segment_clients = (\<lambda>(i, (subnet, count, interval)).
     map (\<lambda>j. (client_name i j,
               client_service (client_name i j) (net_name i) (base_of subnet) interval j))
         [1..count])"

definition segment_network :: "nat \<times> 'f range \<Rightarrow> string \<times> 'f yaml" where
  "segment_network = (\<lambda>(i, (subnet, count, interval)). (net_name i, network_def subnet))"

subsection \<open>A serialiser that keeps every document apart\<close>

text \<open>
  The specification asks of the serialiser that it preserves the order of the keys. A
  serialiser does so when two documents that differ, in the order of their keys or
  otherwise, are never written as the same text. The following one is of this kind: it
  writes a tag before every value and every list item, and ends every string and every
  list with a mark. It stands for the library where a statement assumes such a serialiser;
  the interval is given as text.
\<close>

primrec encstr :: "string \<Rightarrow> string" where
  "encstr [] = ''.''"
| "encstr (c # cs) = CHR ''c'' # c # encstr cs"

fun enc :: "string yaml \<Rightarrow> string"
  and enc_list :: "string yaml list \<Rightarrow> string"
  and enc_dict :: "(string \<times> string yaml) list \<Rightarrow> string" where
  "enc (YStr s) = CHR ''S'' # encstr s"
| "enc (YFloat f) = CHR ''F'' # encstr f"
| "enc (YList vs) = CHR ''L'' # enc_list vs"
| "enc (YDict kvs) = CHR ''D'' # enc_dict kvs"
| "enc_list [] = ''e''"
| "enc_list (v # vs) = CHR ''i'' # enc v @ enc_list vs"
| "enc_dict [] = ''e''"
| "enc_dict (kv # kvs) = CHR ''k'' # encstr (fst kv) @ enc (snd kv) @ enc_dict kvs"

section \<open>Properties\<close>

subsection \<open>Formatting and names\<close>

lemma digit_cases: "d < 10 \<Longrightarrow> d \<in> {0, 1, 2, 3, 4, 5, 6, 7, 8, 9::nat}"
  by auto

lemma digit_val_digit_char: "d < 10 \<Longrightarrow> digit_val (digit_char d) = d"
  using digit_cases [of d] by (auto simp: digit_val_def digit_char_def)

lemma is_digit_digit_char: "d < 10 \<Longrightarrow> is_digit (digit_char d)"
  using digit_cases [of d] by (auto simp: is_digit_def digit_char_def)

lemma nat_of_str_snoc: "nat_of_str (s @ [c]) = 10 * nat_of_str s + digit_val c"
  by (simp add: nat_of_str_def)

lemma nat_of_str_str_nat: "nat_of_str (str_nat n) = n"
proof (induction n rule: str_nat.induct)
  case (1 n)
  show ?case
  proof (cases "n < 10")
    case True
    then show ?thesis
      by (simp add: str_nat.simps [of n] nat_of_str_def digit_val_digit_char)
  next
    case False
    with 1 show ?thesis
      by (simp add: str_nat.simps [of n] nat_of_str_snoc digit_val_digit_char)
  qed
qed

lemma str_nat_inj: "str_nat m = str_nat n \<Longrightarrow> m = n"
  by (metis nat_of_str_str_nat)

lemma str_nat_digits: "c \<in> set (str_nat n) \<Longrightarrow> is_digit c"
proof (induction n rule: str_nat.induct)
  case (1 n)
  then show ?case
    by (cases "n < 10") (auto simp: str_nat.simps [of n] is_digit_digit_char)
qed

lemma str_nat_nonempty: "str_nat n \<noteq> []"
  by (subst str_nat.simps) simp

lemma minus_not_digit: "\<not> is_digit CHR ''-''"
  by (simp add: is_digit_def)

lemma str_nat_hd_not_minus: "hd (str_nat n) \<noteq> CHR ''-''"
  using str_nat_digits [of "hd (str_nat n)" n] str_nat_nonempty [of n] minus_not_digit
  by (metis hd_in_set)

lemma str_int_inj: "str_int a = str_int b \<Longrightarrow> a = b"
proof -
  assume eq: "str_int a = str_int b"
  have neg: "str_nat m \<noteq> CHR ''-'' # s" for m s
    using str_nat_hd_not_minus [of m] by (metis list.sel(1))
  show ?thesis
  proof (cases "a < 0"; cases "b < 0")
    assume "a < 0" "b < 0"
    with eq have "nat (- a) = nat (- b)" by (simp add: str_int_def str_nat_inj)
    with \<open>a < 0\<close> \<open>b < 0\<close> show ?thesis by simp
  next
    assume "a < 0" "\<not> b < 0"
    with eq neg show ?thesis by (simp add: str_int_def) metis
  next
    assume "\<not> a < 0" "b < 0"
    with eq neg show ?thesis by (simp add: str_int_def)
  next
    assume "\<not> a < 0" "\<not> b < 0"
    with eq have "nat a = nat b" by (simp add: str_int_def str_nat_inj)
    with \<open>\<not> a < 0\<close> \<open>\<not> b < 0\<close> show ?thesis by simp
  qed
qed

lemma str_int_chars: "c \<in> set (str_int a) \<Longrightarrow> is_digit c \<or> c = CHR ''-''"
  by (auto simp: str_int_def dest: str_nat_digits split: if_splits)

lemma underscore_not_in_str_int: "CHR ''_'' \<notin> set (str_int a)"
  using str_int_chars [of "CHR ''_''" a] by (auto simp: is_digit_def)

lemma append_sep_eq:
  "c \<notin> set xs \<Longrightarrow> c \<notin> set xs' \<Longrightarrow> xs @ c # ys = xs' @ c # ys' \<Longrightarrow> xs = xs' \<and> ys = ys'"
proof (induction xs arbitrary: xs')
  case Nil
  then show ?case by (cases xs') auto
next
  case (Cons x xs)
  then show ?case by (cases xs') auto
qed

lemma net_name_inj: "net_name i = net_name k \<Longrightarrow> i = k"
  by (auto simp: net_name_def dest: str_int_inj)

lemma client_name_inj:
  assumes "client_name i j = client_name i' j'"
  shows "i = i' \<and> j = j'"
proof -
  from assms have "str_int (int i + 1) @ CHR ''_'' # str_int j
      = str_int (int i' + 1) @ CHR ''_'' # str_int j'"
    by (simp add: client_name_def)
  then have "str_int (int i + 1) = str_int (int i' + 1) \<and> str_int j = str_int j'"
    by (rule append_sep_eq [OF underscore_not_in_str_int underscore_not_in_str_int])
  then show ?thesis by (auto dest: str_int_inj)
qed

lemma client_name_not_infra:
  "client_name i j \<noteq> ''proxy''" "client_name i j \<noteq> ''cidrx''" "client_name i j \<noteq> ''filebeat''"
  by (simp_all add: client_name_def)

subsection \<open>Dictionaries\<close>

lemma setitem_new: "k \<notin> fst ` set d \<Longrightarrow> setitem k v d = d @ [(k, v)]"
  by (induction d) auto

lemma fold_setitem_new:
  "distinct (map f xs) \<Longrightarrow> (\<forall>x \<in> set xs. f x \<notin> fst ` set d) \<Longrightarrow>
   fold (\<lambda>x d. setitem (f x) (g x) d) xs d = d @ map (\<lambda>x. (f x, g x)) xs"
proof (induction xs arbitrary: d)
  case Nil
  then show ?case by simp
next
  case (Cons x xs)
  from Cons.prems have new: "f x \<notin> fst ` set d" by simp
  from Cons.prems have d: "distinct (map f xs)" by simp
  from Cons.prems have "\<forall>y \<in> set xs. f y \<notin> fst ` set (d @ [(f x, g x)])"
    by (auto simp: image_iff)
  with d have "fold (\<lambda>x d. setitem (f x) (g x) d) xs (d @ [(f x, g x)])
      = (d @ [(f x, g x)]) @ map (\<lambda>x. (f x, g x)) xs"
    by (rule Cons.IH)
  with new show ?case by (simp add: setitem_new)
qed


subsection \<open>The loops\<close>

lemma distinct_net_names: "distinct (map net_name [0..<n])"
  by (auto simp: distinct_map intro!: inj_onI dest: net_name_inj)

lemma distinct_client_names: "distinct (map (client_name i) [1..count])"
  by (auto simp: distinct_map intro!: inj_onI dest: client_name_inj)

lemma proxy_nets_map: "proxy_nets n = map (\<lambda>i. (net_name i, YDict [])) [0..<n]"
  unfolding proxy_nets_def
  using fold_setitem_new [of net_name "[0..<n]" "[]" "\<lambda>i. YDict []"] distinct_net_names [of n]
  by simp

lemma clients_loop_append:
  assumes "\<forall>j. client_name i j \<notin> fst ` set svcs"
  shows "clients_loop i net base interval count svcs =
         svcs @ map (\<lambda>j. (client_name i j, client_service (client_name i j) net base interval j))
                        [1..count]"
  unfolding clients_loop_def
  using assms distinct_client_names [of i count]
  by (intro fold_setitem_new) auto

lemma keys_segment_clients:
  "map fst (segment_clients (i, (subnet, count, interval))) = map (client_name i) [1..count]"
  by (simp add: segment_clients_def comp_def)

lemma keys_segment_clients_set:
  "fst ` set (segment_clients (i, r)) = client_name i ` {1..fst (snd r)}"
proof -
  have "fst ` set (segment_clients (i, r)) = set (map fst (segment_clients (i, r)))"
    by simp
  also have "\<dots> = client_name i ` {1..fst (snd r)}"
    by (cases r) (simp only: keys_segment_clients, simp)
  finally show ?thesis .
qed

lemma fold_segment_step:
  assumes "\<forall>i \<ge> k. \<forall>j. client_name i j \<notin> fst ` set S"
      and "\<forall>i \<ge> k. net_name i \<notin> fst ` set N"
  shows "fold segment_step (enumerate k rs) (S, N) =
         (S @ concat (map segment_clients (enumerate k rs)),
          N @ map segment_network (enumerate k rs))"
  using assms
proof (induction rs arbitrary: k S N)
  case Nil
  then show ?case by simp
next
  case (Cons r rs)
  obtain subnet count interval where r: "r = (subnet, count, interval)"
    by (cases r) auto
  let ?S = "S @ segment_clients (k, r)"
  let ?N = "N @ [segment_network (k, r)]"
  have step: "segment_step (k, r) (S, N) = (?S, ?N)"
    using Cons.prems
    by (simp add: segment_step_def r clients_loop_append setitem_new
          segment_clients_def segment_network_def)
  have S: "\<forall>i \<ge> Suc k. \<forall>j. client_name i j \<notin> fst ` set ?S"
    using Cons.prems(1) by (auto simp: keys_segment_clients_set image_Un dest!: client_name_inj)
  have N: "\<forall>i \<ge> Suc k. net_name i \<notin> fst ` set ?N"
    using Cons.prems(2) by (auto simp: segment_network_def r image_Un dest!: net_name_inj)
  show ?case
    by (simp add: step Cons.IH [OF S N])
qed

lemma generate_compose_closed:
  "generate_compose ranges =
     Inr \<lparr>services = infra_services (length ranges)
                         @ concat (map segment_clients (enumerate 0 ranges)),
          networks = map segment_network (enumerate 0 ranges),
          volumes = [(''filebeat_data'', YDict [])]\<rparr>"
proof -
  let ?S = "infra_services (length ranges) :: 'a dict"
  have "\<forall>i \<ge> 0. \<forall>j. client_name i j \<notin> fst ` set ?S"
    by (simp add: infra_services_def client_name_not_infra)
  then have "fold segment_step (enumerate 0 ranges) (?S, []) =
         (?S @ concat (map segment_clients (enumerate 0 ranges)),
          [] @ map segment_network (enumerate 0 ranges))"
    by (intro fold_segment_step) auto
  then show ?thesis
    by (simp add: generate_compose_def infra_services_def Let_def)
qed

subsection \<open>The addresses of a segment\<close>

lemma proxy_nets_lookup: "map_of (proxy_nets n) k = Some v \<Longrightarrow> v = YDict []"
  by (auto simp: proxy_nets_map dest!: map_of_SomeD)

lemma keys_proxy_nets: "keys (proxy_nets n) = map net_name [0..<n]"
  by (simp add: proxy_nets_map keys_def comp_def)


lemma assigned_address_proxy: "assigned_address net (proxy_service (proxy_nets n)) = None"
  by (auto simp: assigned_address_def proxy_service_def split: option.splits yaml.splits
      dest!: proxy_nets_lookup)

lemma assigned_address_cidrx: "assigned_address net (cidrx_service (proxy_nets n)) = None"
  by (auto simp: assigned_address_def cidrx_service_def split: option.splits yaml.splits
      dest!: proxy_nets_lookup)

lemma assigned_address_filebeat: "assigned_address net (filebeat_service (proxy_nets n)) = None"
  by (auto simp: assigned_address_def filebeat_service_def split: option.splits yaml.splits
      dest!: proxy_nets_lookup)

lemma assigned_address_client:
  "assigned_address net (client_service name net' base interval j) =
     (if net = net' then Some (ipv4_address base j) else None)"
  by (simp add: assigned_address_def client_service_def)

lemma map_filter_append: "List.map_filter f (xs @ ys) = List.map_filter f xs @ List.map_filter f ys"
  by (simp add: List.map_filter_def)

lemma map_filter_concat:
  "List.map_filter f (concat xss) = concat (map (List.map_filter f) xss)"
  by (induction xss) (simp_all add: map_filter_append map_filter_simps)

lemma addresses_infra:
  "List.map_filter (\<lambda>(name, svc). assigned_address net svc) (infra_services n) = []"
  by (simp add: infra_services_def List.map_filter_def assigned_address_proxy
      assigned_address_cidrx assigned_address_filebeat)

lemma addresses_segment_clients:
  "List.map_filter (\<lambda>(name, svc). assigned_address (net_name i) svc)
     (segment_clients (k, (subnet, count, interval))) =
   (if k = i then map (ipv4_address (base_of subnet)) [1..count] else [])"
  by (auto simp: segment_clients_def List.map_filter_def assigned_address_client comp_def
      filter_empty_conv dest: net_name_inj)

lemma concat_all_empty: "(\<forall>x \<in> set xs. g x = []) \<Longrightarrow> concat (map g xs) = []"
  by (induction xs) auto

lemma concat_enumerate_pick:
  assumes "k \<le> i" "i < k + length rs" "\<forall>m r. m \<noteq> i \<longrightarrow> g (m, r) = []"
  shows "concat (map g (enumerate k rs)) = g (i, rs ! (i - k))"
  using assms
proof (induction rs arbitrary: k)
  case Nil
  then show ?case by simp
next
  case (Cons r rs)
  show ?case
  proof (cases "i = k")
    case True
    have "\<forall>x \<in> set (enumerate (Suc k) rs). g x = []"
      using Cons.prems(3) True by (auto simp: in_set_enumerate_eq)
    then have "concat (map g (enumerate (Suc k) rs)) = []"
      by (rule concat_all_empty)
    with True show ?thesis by simp
  next
    case False
    with Cons.prems have "Suc k \<le> i" "i < Suc k + length rs" by auto
    from Cons.IH [OF this Cons.prems(3)] False Cons.prems(1,3) show ?thesis
      by (simp add: Suc_diff_Suc flip: Suc_diff_le) 
  qed
qed

lemma segment_addresses_closed:
  assumes "i < length ranges" "ranges ! i = (subnet, count, interval)"
      and "generate_compose ranges = Inr d"
  shows "segment_addresses d (net_name i) = map (ipv4_address (base_of subnet)) [1..count]"
proof -
  let ?f = "\<lambda>(name, svc). assigned_address (net_name i) svc"
  let ?g = "\<lambda>x. List.map_filter ?f (segment_clients x)"
  have "?g (m, r) = []" if "m \<noteq> i" for m r
    using that by (cases r) (simp add: addresses_segment_clients)
  then have other: "\<forall>m r. m \<noteq> i \<longrightarrow> ?g (m, r) = []"
    by blast
  have "segment_addresses d (net_name i) = concat (map ?g (enumerate 0 ranges))"
    using assms(3)
    by (auto simp: generate_compose_closed segment_addresses_def map_filter_append
        map_filter_concat addresses_infra comp_def)
  also have "\<dots> = ?g (i, ranges ! (i - 0))"
    using assms(1) other by (intro concat_enumerate_pick) auto
  also have "\<dots> = map (ipv4_address (base_of subnet)) [1..count]"
    by (simp add: assms(2) addresses_segment_clients)
  finally show ?thesis .
qed

subsection \<open>Splitting strings\<close>

lemma rsplit1_last_sep:
  assumes "sep \<notin> set ys"
  shows "rsplit1 sep (xs @ sep # ys) = [xs, ys]"
proof -
  have r: "rev (xs @ sep # ys) = rev ys @ sep # rev xs" by simp
  have t: "takeWhile (\<lambda>c. c \<noteq> sep) (rev ys @ sep # rev xs) = rev ys"
    using assms by (auto simp: takeWhile_tail)
  have d: "dropWhile (\<lambda>c. c \<noteq> sep) (rev ys @ sep # rev xs) = sep # rev xs"
    using assms by (auto simp: dropWhile_append3)
  show ?thesis
    unfolding rsplit1_def r t d by simp
qed

lemma base_of_last_dot: "CHR ''.'' \<notin> set ys \<Longrightarrow> base_of (xs @ CHR ''.'' # ys) = xs"
  by (simp add: base_of_def rsplit1_last_sep)

lemma digit_not_dot: "is_digit c \<Longrightarrow> c \<noteq> CHR ''.''"
  by (auto simp: is_digit_def)

lemma dot_not_in_str_nat: "CHR ''.'' \<notin> set (str_nat n)"
  using str_nat_digits digit_not_dot by blast

lemma str_int_nonneg: "0 \<le> a \<Longrightarrow> str_int a = str_nat (nat a)"
  by (simp add: str_int_def)



lemma host_number_address:
  assumes "0 \<le> 31 + j"
  shows "host_number (ipv4_address base j) = nat (31 + j)"
proof -
  have "ipv4_address base j = base @ CHR ''.'' # str_nat (nat (31 + j))"
    using assms by (simp add: ipv4_address_def str_int_nonneg)
  then show ?thesis
    by (simp add: host_number_def rsplit1_last_sep dot_not_in_str_nat nat_of_str_str_nat)
qed

lemma split_on_nonempty: "split_on sep s \<noteq> []"
  by (induction s) (auto split: list.splits)

lemma split_on_no_sep: "sep \<notin> set s \<Longrightarrow> split_on sep s = [s]"
  by (induction s) auto

lemma split_on_append:
  "sep \<notin> set p \<Longrightarrow> split_on sep (p @ sep # rest) = p # split_on sep rest"
  by (induction p) auto

lemma split_on_Cons:
  "split_on sep s = p # ps \<Longrightarrow>
     sep \<notin> set p \<and> (if ps = [] then s = p else \<exists>rest. s = p @ sep # rest \<and> split_on sep rest = ps)"
proof (induction s arbitrary: p ps)
  case Nil
  then show ?case by simp
next
  case (Cons c cs)
  show ?case
  proof (cases "c = sep")
    case True
    with Cons.prems show ?thesis by (auto simp: split_on_nonempty)
  next
    case False
    with Cons.prems obtain q where q: "split_on sep cs = q # ps" "p = c # q"
      by (auto simp: split_on_nonempty split: list.splits)
    from Cons.IH [OF q(1)] False q(2) show ?thesis by auto
  qed
qed

lemma split_on_two:
  assumes "split_on sep s = [a, b]"
  shows "s = a @ sep # b \<and> sep \<notin> set a \<and> sep \<notin> set b"
proof -
  from split_on_Cons [OF assms] obtain rest
    where 1: "sep \<notin> set a" "s = a @ sep # rest" "split_on sep rest = [b]" by auto
  from split_on_Cons [OF 1(3)] have "sep \<notin> set b" "rest = b" by auto
  with 1 show ?thesis by simp
qed

lemma split_on_four:
  assumes "split_on sep s = [a, b, c, d]"
  shows "s = (a @ sep # b @ sep # c) @ sep # d \<and> sep \<notin> set a \<and> sep \<notin> set b
         \<and> sep \<notin> set c \<and> sep \<notin> set d"
proof -
  from split_on_Cons [OF assms] obtain r1
    where 1: "sep \<notin> set a" "s = a @ sep # r1" "split_on sep r1 = [b, c, d]" by auto
  from split_on_Cons [OF 1(3)] obtain r2
    where 2: "sep \<notin> set b" "r1 = b @ sep # r2" "split_on sep r2 = [c, d]" by auto
  from split_on_two [OF 2(3)] 1 2 show ?thesis by simp
qed

lemma decimal_str_nat: "n \<le> bound \<Longrightarrow> decimal bound (str_nat n) = Some n"
  by (simp add: decimal_def nat_of_str_str_nat)

lemma decimal_SomeD: "decimal bound s = Some n \<Longrightarrow> s = str_nat n \<and> n \<le> bound"
  by (auto simp: decimal_def Let_def split: if_splits)

subsection \<open>Addresses and ranges\<close>

lemma parse_ipv4_SomeD:
  assumes "parse_ipv4 s = Some n"
  shows "\<exists>a b c d A B C D. split_on CHR ''.'' s = [a, b, c, d]
           \<and> decimal 255 a = Some A \<and> decimal 255 b = Some B
           \<and> decimal 255 c = Some C \<and> decimal 255 d = Some D
           \<and> n = ((A * 256 + B) * 256 + C) * 256 + D"
  using assms
  by (auto simp: parse_ipv4_def split: list.splits option.splits)

lemma parse_ipv4_quad:
  assumes "CHR ''.'' \<notin> set a" "CHR ''.'' \<notin> set b" "CHR ''.'' \<notin> set c" "CHR ''.'' \<notin> set d"
      and "decimal 255 a = Some A" "decimal 255 b = Some B"
      and "decimal 255 c = Some C" "decimal 255 d = Some D"
  shows "parse_ipv4 ((a @ CHR ''.'' # b @ CHR ''.'' # c) @ CHR ''.'' # d)
         = Some (((A * 256 + B) * 256 + C) * 256 + D)"
proof -
  have "split_on CHR ''.'' ((a @ CHR ''.'' # b @ CHR ''.'' # c) @ CHR ''.'' # d) = [a, b, c, d]"
    using assms(1-4) by (simp add: split_on_append split_on_no_sep)
  then show ?thesis
    by (simp add: parse_ipv4_def assms(5-8))
qed

lemma parse_cidr_SomeD:
  assumes "parse_cidr s = Some (net, len)"
  shows "\<exists>a. s = a @ CHR ''/'' # str_nat len \<and> CHR ''/'' \<notin> set a
           \<and> parse_ipv4 a = Some net \<and> len \<le> 32"
proof -
  from assms obtain a p where s: "split_on CHR ''/'' s = [a, p]"
      and a: "parse_ipv4 a = Some net" and p: "decimal 32 p = Some len"
    by (auto simp: parse_cidr_def split: list.splits option.splits)
  from split_on_two [OF s] decimal_SomeD [OF p] a show ?thesis by auto
qed

text \<open>The base of a well-formed range is its first three octets.\<close>

lemma parse_allocated:
  assumes cidr: "parse_cidr subnet = Some (net, len)" and j: "1 \<le> j" "j \<le> 224"
  shows "parse_ipv4 (ipv4_address (base_of subnet) j) = Some (net div 256 * 256 + nat (31 + j))"
proof -
  from parse_cidr_SomeD [OF cidr] obtain q
    where subnet: "subnet = q @ CHR ''/'' # str_nat len" and q: "parse_ipv4 q = Some net"
    by auto
  from parse_ipv4_SomeD [OF q] obtain a b c d A B C D
    where quad: "split_on CHR ''.'' q = [a, b, c, d]"
      and dec: "decimal 255 a = Some A" "decimal 255 b = Some B"
               "decimal 255 c = Some C" "decimal 255 d = Some D"
      and net: "net = ((A * 256 + B) * 256 + C) * 256 + D"
    by blast
  from split_on_four [OF quad]
  have shape: "q = (a @ CHR ''.'' # b @ CHR ''.'' # c) @ CHR ''.'' # d"
    and nodot: "CHR ''.'' \<notin> set a" "CHR ''.'' \<notin> set b" "CHR ''.'' \<notin> set c" "CHR ''.'' \<notin> set d"
    by auto
  let ?base = "a @ CHR ''.'' # b @ CHR ''.'' # c"
  have split: "subnet = ?base @ CHR ''.'' # (d @ CHR ''/'' # str_nat len)"
    by (simp add: subnet shape)
  have "CHR ''.'' \<notin> set (d @ CHR ''/'' # str_nat len)"
    using nodot(4) by (simp add: dot_not_in_str_nat)
  then have base: "base_of subnet = ?base"
    unfolding split by (rule base_of_last_dot)
  let ?h = "nat (31 + j)"
  have addr: "ipv4_address (base_of subnet) j = ?base @ CHR ''.'' # str_nat ?h"
    using j by (simp add: base ipv4_address_def str_int_nonneg)
  have h: "decimal 255 (str_nat ?h) = Some ?h"
    using j by (intro decimal_str_nat) simp
  from decimal_SomeD [OF dec(4)] have D: "D < 256" by simp
  have "parse_ipv4 (ipv4_address (base_of subnet) j) = Some (((A * 256 + B) * 256 + C) * 256 + ?h)"
    unfolding addr
    by (rule parse_ipv4_quad [OF nodot(1-3) dot_not_in_str_nat dec(1-3) h])
  moreover have "net div 256 = (A * 256 + B) * 256 + C"
    using D by (simp add: net)
  ultimately show ?thesis by simp
qed

lemma pow2_split: "len \<le> 24 \<Longrightarrow> (2::nat) ^ (32 - len) = 256 * 2 ^ (24 - len)"
proof -
  assume "len \<le> 24"
  then have "32 - len = 8 + (24 - len)" by simp
  then show ?thesis by (simp only: power_add) simp
qed

lemma div_low_octet: "h < 256 \<Longrightarrow> (N * 256 + h) div (256 * k) = N div (k::nat)"
proof -
  assume "h < 256"
  then have "(N * 256 + h) div 256 = N" by simp
  then show ?thesis by (simp only: div_mult2_eq)
qed

lemma in_cidr_allocated:
  assumes cidr: "parse_cidr subnet = Some (net, len)" and len: "len \<le> 24"
      and j: "1 \<le> j" "j \<le> 224"
  shows "in_cidr (ipv4_address (base_of subnet) j) subnet"
proof -
  let ?h = "nat (31 + j)"
  let ?k = "(2::nat) ^ (24 - len)"
  from j have h: "?h < 256" by simp
  have "net = net div 256 * 256 + net mod 256" by simp
  then have "net div (256 * ?k) = net div 256 div ?k"
    by (simp only: div_mult2_eq)
  moreover have "(net div 256 * 256 + ?h) div (256 * ?k) = net div 256 div ?k"
    using h by (rule div_low_octet)
  ultimately have "(net div 256 * 256 + ?h) div 2 ^ (32 - len) = net div 2 ^ (32 - len)"
    by (simp only: pow2_split [OF len])
  then show ?thesis
    by (simp add: in_cidr_def parse_allocated [OF cidr j] cidr)
qed

subsection \<open>The generated document\<close>

lemma generate_compose_returns: "\<exists>d. generate_compose ranges = Inr d"
  by (simp add: generate_compose_closed)

lemma keys_segment_network: "map (fst \<circ> segment_network) (enumerate k rs) = map net_name [k..<k + length rs]"
proof -
  have "fst \<circ> segment_network = net_name \<circ> (fst :: nat \<times> 'a range \<Rightarrow> nat)"
    by (auto simp: segment_network_def fun_eq_iff)
  then have "map (fst \<circ> segment_network) (enumerate k rs) = map net_name (map fst (enumerate k rs))"
    by (simp only: map_map)
  then show ?thesis by (simp only: map_fst_enumerate)
qed

lemma keys_networks:
  assumes "generate_compose ranges = Inr d"
  shows "keys (networks d) = map net_name [0..<length ranges]"
  using assms keys_segment_network [of 0 ranges]
  by (auto simp: generate_compose_closed keys_def)

lemma keys_services:
  assumes "generate_compose ranges = Inr d"
  shows "keys (services d) =
     [''proxy'', ''cidrx'', ''filebeat''] @
     concat (map (\<lambda>(i, (subnet, count, interval)). map (client_name i) [1..count])
                 (enumerate 0 ranges))"
proof -
  let ?r = "\<lambda>(i, (subnet, count, interval)). map (client_name i) [1..count]"
  have "map fst \<circ> segment_clients = (?r :: nat \<times> 'a range \<Rightarrow> string list)"
    by (auto simp: fun_eq_iff keys_segment_clients)
  then have "map fst (concat (map segment_clients (enumerate 0 ranges)))
      = concat (map ?r (enumerate 0 ranges))"
    by (simp only: map_concat map_map)
  with assms show ?thesis
    by (auto simp: generate_compose_closed keys_def infra_services_def)
qed

lemma keys_setitem:
  "map fst (setitem k v d) = (if k \<in> set (map fst d) then map fst d else map fst d @ [k])"
  by (induction d) auto

lemma distinct_setitem: "distinct (map fst d) \<Longrightarrow> distinct (map fst (setitem k v d))"
  by (simp add: keys_setitem)

lemma distinct_fold_setitem:
  "distinct (map fst d) \<Longrightarrow> distinct (map fst (fold (\<lambda>x d. setitem (f x) (g x) d) xs d))"
  by (induction xs arbitrary: d) (simp_all add: distinct_setitem)

lemma distinct_segment_step:
  "distinct (map fst (fst st)) \<Longrightarrow> distinct (map fst (fst (segment_step x st)))"
  by (cases x; cases st) (auto simp: segment_step_def clients_loop_def intro: distinct_fold_setitem)

lemma distinct_fold_segment_step:
  "distinct (map fst (fst st)) \<Longrightarrow> distinct (map fst (fst (fold segment_step xs st)))"
  by (induction xs arbitrary: st) (simp_all add: distinct_segment_step)

lemma distinct_services:
  assumes "generate_compose ranges = Inr d"
  shows "distinct (keys (services d))"
proof -
  let ?S = "infra_services (length ranges) :: 'a dict"
  have "distinct (map fst (fst (?S, [] :: 'a dict)))"
    by (simp add: infra_services_def)
  then have "distinct (map fst (fst (fold segment_step (enumerate 0 ranges) (?S, []))))"
    by (rule distinct_fold_segment_step)
  moreover have "fold segment_step (enumerate 0 ranges) (?S, []) =
         (?S @ concat (map segment_clients (enumerate 0 ranges)),
          [] @ map segment_network (enumerate 0 ranges))"
    by (intro fold_segment_step) (simp_all add: infra_services_def client_name_not_infra)
  ultimately show ?thesis
    using assms by (auto simp: generate_compose_closed keys_def)
qed

lemma services_cases:
  assumes "generate_compose ranges = Inr d" "(name, svc) \<in> set (services d)"
  shows "(name, svc) \<in> set (infra_services (length ranges)) \<or>
         (\<exists>i subnet count interval j. i < length ranges \<and> ranges ! i = (subnet, count, interval)
            \<and> 1 \<le> j \<and> j \<le> count \<and> name = client_name i j
            \<and> svc = client_service name (net_name i) (base_of subnet) interval j)"
proof -
  from assms have "(name, svc) \<in> set (infra_services (length ranges)) \<or>
      (\<exists>x \<in> set (enumerate 0 ranges). (name, svc) \<in> set (segment_clients x))"
    by (auto simp: generate_compose_closed)
  then show ?thesis
  proof
    assume "(name, svc) \<in> set (infra_services (length ranges))"
    then show ?thesis ..
  next
    assume "\<exists>x \<in> set (enumerate 0 ranges). (name, svc) \<in> set (segment_clients x)"
    then obtain i r where x: "(i, r) \<in> set (enumerate 0 ranges)"
        and m: "(name, svc) \<in> set (segment_clients (i, r))"
      by auto
    obtain subnet count interval where r: "r = (subnet, count, interval)"
      by (cases r) auto
    from x have i: "i < length ranges" "ranges ! i = r"
      by (auto simp: in_set_enumerate_eq)
    from m obtain j where "1 \<le> j" "j \<le> count" "name = client_name i j"
        "svc = client_service name (net_name i) (base_of subnet) interval j"
      by (auto simp: segment_clients_def r)
    with i r show ?thesis by blast
  qed
qed

lemma client_in_services:
  assumes "generate_compose ranges = Inr d"
      and "i < length ranges" "ranges ! i = (subnet, count, interval)" "1 \<le> j" "j \<le> count"
  shows "(client_name i j, client_service (client_name i j) (net_name i) (base_of subnet) interval j)
         \<in> set (services d)"
proof -
  have "(i, ranges ! i) \<in> set (enumerate 0 ranges)"
    using assms(2) by (simp add: in_set_enumerate_eq)
  moreover have "(client_name i j,
       client_service (client_name i j) (net_name i) (base_of subnet) interval j)
      \<in> set (segment_clients (i, ranges ! i))"
    using assms(3-5) by (simp add: segment_clients_def)
  ultimately show ?thesis
    using assms(1) by (auto simp: generate_compose_closed)
qed

lemma getitem_client:
  assumes "generate_compose ranges = Inr d"
      and "i < length ranges" "ranges ! i = (subnet, count, interval)" "1 \<le> j" "j \<le> count"
  shows "getitem (services d) (client_name i j) =
         Some (client_service (client_name i j) (net_name i) (base_of subnet) interval j)"
  unfolding getitem_def
  using distinct_services [OF assms(1)] client_in_services [OF assms]
  by (simp add: keys_def)

lemma getitem_infra:
  assumes "generate_compose ranges = Inr d"
  shows "getitem (services d) ''proxy'' = Some (proxy_service (proxy_nets (length ranges)))"
    and "getitem (services d) ''cidrx'' = Some (cidrx_service (proxy_nets (length ranges)))"
    and "getitem (services d) ''filebeat'' = Some (filebeat_service (proxy_nets (length ranges)))"
  using assms by (auto simp: generate_compose_closed getitem_def infra_services_def)

lemma getitem_network:
  assumes "generate_compose ranges = Inr d"
      and "i < length ranges" "ranges ! i = (subnet, count, interval)"
  shows "getitem (networks d) (net_name i) = Some (network_def subnet)"
proof -
  have "distinct (map fst (networks d))"
    using keys_networks [OF assms(1)] distinct_net_names [of "length ranges"]
    by (simp add: keys_def)
  moreover have "(i, ranges ! i) \<in> set (enumerate 0 ranges)"
    using assms(2) by (simp add: in_set_enumerate_eq)
  then have "(net_name i, network_def subnet) \<in> set (networks d)"
    using assms(1,3) by (force simp: generate_compose_closed segment_network_def)
  ultimately show ?thesis
    by (simp add: getitem_def)
qed

lemma pool_network_def: "pool (network_def subnet) = Some subnet"
  by (simp add: pool_def network_def_def)

lemma member_networks_infra:
  "member_networks (proxy_service nets) = keys nets"
  "member_networks (cidrx_service nets) = keys nets"
  "member_networks (filebeat_service nets) = keys nets"
  by (simp_all add: member_networks_def proxy_service_def cidrx_service_def filebeat_service_def)

lemma member_networks_client:
  "member_networks (client_service name net base interval j) = [net]"
  by (simp add: member_networks_def client_service_def keys_def)

lemma depends_on_services:
  "depends_on (proxy_service nets) = []"
  "depends_on (cidrx_service nets) = []"
  "depends_on (filebeat_service nets) = [''proxy'', ''cidrx'']"
  "depends_on (client_service name net base interval j) = [''proxy'']"
  by (simp_all add: depends_on_def proxy_service_def cidrx_service_def filebeat_service_def
      client_service_def)

lemma ipv4_address_inj: "ipv4_address base j = ipv4_address base k \<Longrightarrow> j = k"
  by (auto simp: ipv4_address_def dest: str_int_inj)

lemma distinct_addresses: "distinct (map (ipv4_address base) [1..count])"
  by (auto simp: distinct_map intro!: inj_onI dest: ipv4_address_inj)

lemma host_numbers: "map (host_number \<circ> ipv4_address base) [1..count] = map (\<lambda>j. nat (31 + j)) [1..count]"
  by (rule map_cong) (simp_all add: host_number_address)

lemma sorted_host_numbers: "sorted_wrt (<) (map (\<lambda>j. nat (31 + j)) [1..count])"
  by (auto simp: sorted_wrt_map intro!: sorted_wrt_mono_rel [OF _ sorted_wrt_upto])

lemma length_clients:
  assumes "\<forall>(subnet, count, interval) \<in> set rs. 0 \<le> count"
  shows "int (length (concat (map segment_clients (enumerate k rs)))) =
         sum_list (map (\<lambda>(subnet, count, interval). count) rs)"
  using assms
  by (induction rs arbitrary: k) (auto simp: segment_clients_def)

subsection \<open>Concrete names and bases\<close>

lemma net_name_eval: "net_name 0 = ''net1''" "net_name 1 = ''net2''" "net_name (Suc 0) = ''net2''"
  by (simp_all add: net_name_def str_int_def str_nat.simps digit_char_def)

lemma upto_1_2: "[1..2] = [1, 2]"
  by (simp add: upto_rec1)

lemma base_of_eval: "base_of ''10.0.1.0/24'' = ''10.0.1''"
  by (simp add: base_of_def rsplit1_def)

lemma length_segment_addresses:
  assumes "generate_compose ranges = Inr d" "i < length ranges"
  shows "length (segment_addresses d (net_name i)) = nat (fst (snd (ranges ! i)))"
proof -
  obtain subnet count interval where r: "ranges ! i = (subnet, count, interval)"
    by (cases "ranges ! i") auto
  from segment_addresses_closed [OF assms(2) r assms(1)] r show ?thesis by simp
qed

subsection \<open>Writing the file\<close>

lemma run_writes:
  assumes "generate_compose ranges = Inr c" and "writable e OUTPUT_FILE"
  shows "run dump ranges e =
         Inr (e\<lparr>files := (files e)(OUTPUT_FILE \<mapsto> dump False (compose_dict c)),
                stdout := stdout e @ [summary c]\<rparr>)"
  using assms by (simp add: run_def emit_def)

lemma run_refused: "\<not> writable e OUTPUT_FILE \<Longrightarrow> run dump ranges e = Inl IOError"
  using generate_compose_returns [of ranges] by (auto simp: run_def emit_def)

subsection \<open>The serialiser that keeps every document apart\<close>

lemma encstr_inj: "encstr s @ r = encstr t @ r' \<Longrightarrow> s = t \<and> r = r'"
proof (induction s arbitrary: t)
  case Nil
  then show ?case by (cases t) auto
next
  case (Cons c cs)
  then show ?case by (cases t) auto
qed

lemma enc_inj_rest:
  "(\<forall>w r r'. enc v @ r = enc w @ r' \<longrightarrow> v = w \<and> r = r')"
  "(\<forall>ws r r'. enc_list vs @ r = enc_list ws @ r' \<longrightarrow> vs = ws \<and> r = r')"
  "(\<forall>kws r r'. enc_dict kvs @ r = enc_dict kws @ r' \<longrightarrow> kvs = kws \<and> r = r')"
proof (induction v and vs and kvs rule: enc_enc_list_enc_dict.induct)
  case (1 s)
  show ?case
  proof (intro allI impI)
    fix w r r' assume "enc (YStr s) @ r = enc w @ r'"
    then show "YStr s = w \<and> r = r'"
      by (cases w) (auto dest: encstr_inj)
  qed
next
  case (2 f)
  show ?case
  proof (intro allI impI)
    fix w r r' assume "enc (YFloat f) @ r = enc w @ r'"
    then show "YFloat f = w \<and> r = r'"
      by (cases w) (auto dest: encstr_inj)
  qed
next
  case (3 vs)
  show ?case
  proof (intro allI impI)
    fix w r r' assume "enc (YList vs) @ r = enc w @ r'"
    with 3 show "YList vs = w \<and> r = r'"
      by (cases w) auto
  qed
next
  case (4 kvs)
  show ?case
  proof (intro allI impI)
    fix w r r' assume "enc (YDict kvs) @ r = enc w @ r'"
    with 4 show "YDict kvs = w \<and> r = r'"
      by (cases w) auto
  qed
next
  case 5
  show ?case
  proof (intro allI impI)
    fix ws r r' assume "enc_list [] @ r = enc_list ws @ r'"
    then show "[] = ws \<and> r = r'"
      by (cases ws) auto
  qed
next
  case (6 v vs)
  show ?case
  proof (intro allI impI)
    fix ws r r' assume a: "enc_list (v # vs) @ r = enc_list ws @ r'"
    then obtain w ws' where ws: "ws = w # ws'"
      by (cases ws) auto
    with a have "enc v @ (enc_list vs @ r) = enc w @ (enc_list ws' @ r')"
      by simp
    with 6(1) have "v = w" "enc_list vs @ r = enc_list ws' @ r'"
      by blast+
    with 6(2) ws show "v # vs = ws \<and> r = r'"
      by blast
  qed
next
  case 7
  show ?case
  proof (intro allI impI)
    fix kws r r' assume "enc_dict [] @ r = enc_dict kws @ r'"
    then show "[] = kws \<and> r = r'"
      by (cases kws) auto
  qed
next
  case (8 kv kvs)
  show ?case
  proof (intro allI impI)
    fix kws r r' assume a: "enc_dict (kv # kvs) @ r = enc_dict kws @ r'"
    then obtain kw kws' where kws: "kws = kw # kws'"
      by (cases kws) auto
    with a have "encstr (fst kv) @ (enc (snd kv) @ enc_dict kvs @ r)
        = encstr (fst kw) @ (enc (snd kw) @ enc_dict kws' @ r')"
      by simp
    then have k: "fst kv = fst kw"
      and rest: "enc (snd kv) @ (enc_dict kvs @ r) = enc (snd kw) @ (enc_dict kws' @ r')"
      by (auto dest: encstr_inj)
    from rest 8(1) have v: "snd kv = snd kw" "enc_dict kvs @ r = enc_dict kws' @ r'"
      by blast+
    with 8(2) k kws show "kv # kvs = kws \<and> r = r'"
      by (auto simp: prod_eq_iff)
  qed
qed

lemma enc_inj: "enc v = enc w \<Longrightarrow> v = w"
  using enc_inj_rest(1) [of v] by (metis append_Nil2)

section \<open>The claims\<close>

text \<open>
  C1. The claim that every client address lies within the declared range of its segment
  fails. The script forms an address from the text of the range before its last dot and
  the number 31 + slot, and never reads the prefix length. For the range 10.0.1.128/25
  the first client gets 10.0.1.32, which is outside the range; for 10.0.2.0/24 with 225
  hosts the last client gets 10.0.2.256, which is no address at all.
\<close>

theorem address_outside_range_counterexample:
  "\<not> isl (generate_compose [(''10.0.1.128/25'', 1, 0.1::real), (''10.0.2.0/24'', 225, 0.1)]) \<and>
   segment_addresses
     (projr (generate_compose [(''10.0.1.128/25'', 1, 0.1::real), (''10.0.2.0/24'', 225, 0.1)]))
     ''net1'' = [''10.0.1.32''] \<and>
   \<not> in_cidr ''10.0.1.32'' ''10.0.1.128/25'' \<and>
   length (segment_addresses
     (projr (generate_compose [(''10.0.1.128/25'', 1, 0.1::real), (''10.0.2.0/24'', 225, 0.1)]))
     ''net2'') = 225 \<and>
   segment_addresses
     (projr (generate_compose [(''10.0.1.128/25'', 1, 0.1::real), (''10.0.2.0/24'', 225, 0.1)]))
     ''net2'' ! 224 = ''10.0.2.256'' \<and>
   \<not> in_cidr ''10.0.2.256'' ''10.0.2.0/24''"
proof -
  let ?X = "[(''10.0.1.128/25'', 1, 0.1::real), (''10.0.2.0/24'', 225, 0.1)]"
  obtain d where d: "generate_compose ?X = Inr d"
    using generate_compose_returns by blast
  have "0 < length ?X" "?X ! 0 = (''10.0.1.128/25'', 1, 0.1)"
    by simp_all
  then have "segment_addresses d (net_name 0) = map (ipv4_address (base_of ''10.0.1.128/25'')) [1..1]"
    using d by (rule segment_addresses_closed)
  then have first: "segment_addresses d ''net1'' = [''10.0.1.32'']"
    by (simp add: net_name_eval base_of_def rsplit1_def ipv4_address_def str_int_def
        str_nat.simps digit_char_def)
  have "1 < length ?X" "?X ! 1 = (''10.0.2.0/24'', 225, 0.1)"
    by simp_all
  then have "segment_addresses d (net_name 1) = map (ipv4_address (base_of ''10.0.2.0/24'')) [1..225]"
    using d by (rule segment_addresses_closed)
  moreover have "base_of ''10.0.2.0/24'' = ''10.0.2''"
    by (simp add: base_of_def rsplit1_def)
  moreover have "ipv4_address ''10.0.2'' 225 = ''10.0.2.256''"
    by (simp add: ipv4_address_def str_int_def str_nat.simps digit_char_def)
  ultimately have second: "length (segment_addresses d ''net2'') = 225"
      "segment_addresses d ''net2'' ! 224 = ''10.0.2.256''"
    by (simp_all add: net_name_eval)
  have outside: "\<not> in_cidr ''10.0.1.32'' ''10.0.1.128/25''"
    by (simp add: in_cidr_def parse_cidr_def parse_ipv4_def decimal_def nat_of_str_def
        digit_val_def str_nat.simps digit_char_def)
  have invalid: "\<not> in_cidr ''10.0.2.256'' ''10.0.2.0/24''"
    by (simp add: in_cidr_def parse_cidr_def parse_ipv4_def decimal_def nat_of_str_def
        digit_val_def str_nat.simps digit_char_def)
  from first second outside invalid d show ?thesis by simp
qed

text \<open>
  C1, as amended. For every segment of the expanded document, whose declared pool is the
  range of its spec, the client addresses assigned within the segment are pairwise
  distinct, and the number after their last dot is 31 + slot, strictly increasing with the
  slot. When the range is a well-formed CIDR with a prefix length of at most 24 and the
  host count is at most 224, each address lies within the range.
\<close>

theorem segment_addresses_distinct_increasing:
  assumes "i < length ranges" and "ranges ! i = (subnet, count, interval)"
  shows "\<exists>d nw. generate_compose ranges = Inr d
     \<and> getitem (networks d) (net_name i) = Some nw \<and> pool nw = Some subnet
     \<and> distinct (segment_addresses d (net_name i))
     \<and> map host_number (segment_addresses d (net_name i)) = map (\<lambda>j. nat (31 + j)) [1..count]
     \<and> sorted_wrt (<) (map host_number (segment_addresses d (net_name i)))
     \<and> (\<forall>net len. parse_cidr subnet = Some (net, len) \<and> len \<le> 24 \<and> count \<le> 224 \<longrightarrow>
          (\<forall>a \<in> set (segment_addresses d (net_name i)). in_cidr a subnet))"
proof -
  obtain d where d: "generate_compose ranges = Inr d"
    using generate_compose_returns by blast
  let ?as = "segment_addresses d (net_name i)"
  have as: "?as = map (ipv4_address (base_of subnet)) [1..count]"
    using assms d by (rule segment_addresses_closed)
  have nw: "getitem (networks d) (net_name i) = Some (network_def subnet)"
    using d assms by (rule getitem_network)
  have dist: "distinct ?as"
    by (simp only: as distinct_addresses)
  have hosts: "map host_number ?as = map (\<lambda>j. nat (31 + j)) [1..count]"
    by (simp only: as map_map host_numbers)
  have incr: "sorted_wrt (<) (map host_number ?as)"
    by (simp only: hosts sorted_host_numbers)
  have inside: "in_cidr a subnet"
    if "parse_cidr subnet = Some (net, len)" "len \<le> 24" "count \<le> 224" "a \<in> set ?as"
    for net len a
  proof -
    from that(4) obtain j where j: "1 \<le> j" "j \<le> count" "a = ipv4_address (base_of subnet) j"
      by (auto simp: as)
    with that(3) have "j \<le> 224" by simp
    with that(1,2) j(1) show ?thesis
      unfolding j(3) by (intro in_cidr_allocated)
  qed
  from d nw dist hosts incr inside show ?thesis
    by (auto simp: pool_network_def)
qed

theorem segment_addresses_distinct_increasing_witness:
  "\<exists>d. generate_compose [(''10.0.1.0/24'', 2, 0.1::real)] = Inr d
     \<and> Option.bind (getitem (networks d) ''net1'') pool = Some ''10.0.1.0/24''
     \<and> distinct (segment_addresses d ''net1'')
     \<and> map host_number (segment_addresses d ''net1'') = [32, 33]
     \<and> list_all (\<lambda>a. in_cidr a ''10.0.1.0/24'') (segment_addresses d ''net1'')"
proof -
  have "parse_cidr ''10.0.1.0/24'' = Some (167772416, 24)"
    by (simp add: parse_cidr_def parse_ipv4_def decimal_def nat_of_str_def
        digit_val_def str_nat.simps digit_char_def)
  with segment_addresses_distinct_increasing
    [of 0 "[(''10.0.1.0/24'', 2, 0.1::real)]" "''10.0.1.0/24''" 2 "0.1"]
  show ?thesis
    by (auto simp: net_name_eval upto_1_2 list_all_iff)
qed

text \<open>
  C2. The specification lets address allocation fail with \<open>AddressSpaceExhausted\<close> when
  31 + hostCount exceeds the host space of the range. The script has no such check: for
  the range 10.0.1.0/24 with 224 hosts (31 + 224 = 255 > 254) it returns a document with
  224 client addresses, the last of them 10.0.1.255.
\<close>

theorem exhausted_range_counterexample:
  "\<not> isl (generate_compose [(''10.0.1.0/24'', 224, 0.1::real)]) \<and>
   generate_compose [(''10.0.1.0/24'', 224, 0.1::real)] \<noteq> Inl AddressSpaceExhausted \<and>
   length (segment_addresses (projr (generate_compose [(''10.0.1.0/24'', 224, 0.1::real)])) ''net1'') = 224 \<and>
   segment_addresses (projr (generate_compose [(''10.0.1.0/24'', 224, 0.1::real)])) ''net1'' ! 223
     = ''10.0.1.255''"
proof -
  let ?X = "[(''10.0.1.0/24'', 224, 0.1::real)]"
  obtain d where d: "generate_compose ?X = Inr d"
    using generate_compose_returns by blast
  have "0 < length ?X" "?X ! 0 = (''10.0.1.0/24'', 224, 0.1)"
    by simp_all
  then have "segment_addresses d (net_name 0) = map (ipv4_address (base_of ''10.0.1.0/24'')) [1..224]"
    using d by (rule segment_addresses_closed)
  then have a: "segment_addresses d ''net1'' = map (ipv4_address ''10.0.1'') [1..224]"
    by (simp only: net_name_eval base_of_eval)
  have "ipv4_address ''10.0.1'' 224 = ''10.0.1.255''"
    by (simp add: ipv4_address_def str_int_def str_nat.simps digit_char_def)
  then have "map (ipv4_address ''10.0.1'') [1..224] ! 223 = ''10.0.1.255''"
    by simp
  with a d show ?thesis by simp
qed

text \<open>
  C2, as amended. Address allocation never fails: for every list of specs the expansion
  returns a document, and every segment of it holds as many client addresses as its
  host count asks for (none for a host count below 1), however large 31 + hostCount is.
\<close>

theorem allocation_never_fails:
  "\<exists>d. generate_compose ranges = Inr d \<and>
     (\<forall>i < length ranges.
        length (segment_addresses d (net_name i)) = nat (fst (snd (ranges ! i))))"
proof -
  obtain d where d: "generate_compose ranges = Inr d"
    using generate_compose_returns by blast
  then show ?thesis
    by (auto simp: length_segment_addresses)
qed

theorem allocation_never_fails_witness:
  "\<exists>d. generate_compose [(''10.0.1.0/24'', 224, 0.1::real)] = Inr d \<and>
     length (segment_addresses d ''net1'') = 224"
  using allocation_never_fails [of "[(''10.0.1.0/24'', 224, 0.1::real)]"]
  by (simp add: net_name_eval)

text \<open>
  C3. For every list of specs whose host counts are not negative, the expanded document
  has one network per spec and 3 services more than the sum of the host counts, and one
  volume. For the empty list it has no network, the three infrastructure services
  proxy, cidrx and filebeat and nothing else, and one volume.
\<close>

theorem document_sizes:
  "((\<forall>(subnet, count, interval) \<in> set (ranges :: 'f range list). 0 \<le> count) \<longrightarrow>
      (\<exists>d. generate_compose ranges = Inr d
         \<and> length (networks d) = length ranges
         \<and> int (length (services d)) = 3 + sum_list (map (\<lambda>(subnet, count, interval). count) ranges)
         \<and> length (volumes d) = 1))
   \<and> (\<exists>d. generate_compose ([] :: 'f range list) = Inr d
         \<and> networks d = []
         \<and> keys (services d) = [''proxy'', ''cidrx'', ''filebeat'']
         \<and> length (services d) = 3
         \<and> length (volumes d) = 1)"
proof (intro conjI impI)
  assume valid: "\<forall>(subnet, count, interval) \<in> set ranges. 0 \<le> count"
  let ?d = "\<lparr>services = infra_services (length ranges)
                         @ concat (map segment_clients (enumerate 0 ranges)),
             networks = map segment_network (enumerate 0 ranges),
             volumes = [(''filebeat_data'', YDict [])]\<rparr> :: 'f compose"
  have d: "generate_compose ranges = Inr ?d"
    by (rule generate_compose_closed)
  have "int (length (services ?d)) =
      3 + int (length (concat (map segment_clients (enumerate 0 ranges))))"
    by (simp add: infra_services_def)
  also have "\<dots> = 3 + sum_list (map (\<lambda>(subnet, count, interval). count) ranges)"
    by (simp only: length_clients [OF valid])
  finally have "int (length (services ?d)) =
      3 + sum_list (map (\<lambda>(subnet, count, interval). count) ranges)" .
  moreover have "length (networks ?d) = length ranges" "length (volumes ?d) = 1"
    by simp_all
  ultimately show "\<exists>d. generate_compose ranges = Inr d
         \<and> length (networks d) = length ranges
         \<and> int (length (services d)) = 3 + sum_list (map (\<lambda>(subnet, count, interval). count) ranges)
         \<and> length (volumes d) = 1"
    using d by blast
next
  show "\<exists>d. generate_compose ([] :: 'f range list) = Inr d
         \<and> networks d = []
         \<and> keys (services d) = [''proxy'', ''cidrx'', ''filebeat'']
         \<and> length (services d) = 3
         \<and> length (volumes d) = 1"
    by (simp add: generate_compose_closed infra_services_def keys_def)
qed

theorem document_sizes_witness:
  "\<exists>d. generate_compose RANGES = Inr d
     \<and> length (networks d) = 4 \<and> length (services d) = 47 \<and> length (volumes d) = 1"
  using document_sizes [of RANGES]
  by (auto simp: RANGES_def)




text \<open>
  C5. The specification lets the expansion fail with \<open>InvalidSpec\<close> on a malformed
  CIDR string or a host count that is not positive. The script checks neither: for the
  specs ("not-a-cidr", 1, 0.1) and ("10.0.2.0/24", 0, 0.1) it returns a document with two
  networks and one client, whose address is the text not-a-cidr.32.
\<close>

theorem invalid_spec_counterexample:
  "parse_cidr ''not-a-cidr'' = None \<and>
   \<not> isl (generate_compose [(''not-a-cidr'', 1, 0.1::real), (''10.0.2.0/24'', 0, 0.1)]) \<and>
   generate_compose [(''not-a-cidr'', 1, 0.1::real), (''10.0.2.0/24'', 0, 0.1)] \<noteq> Inl InvalidSpec \<and>
   keys (networks (projr (generate_compose
     [(''not-a-cidr'', 1, 0.1::real), (''10.0.2.0/24'', 0, 0.1)]))) = [''net1'', ''net2''] \<and>
   keys (services (projr (generate_compose
     [(''not-a-cidr'', 1, 0.1::real), (''10.0.2.0/24'', 0, 0.1)])))
     = [''proxy'', ''cidrx'', ''filebeat'', ''client1_1''] \<and>
   segment_addresses (projr (generate_compose
     [(''not-a-cidr'', 1, 0.1::real), (''10.0.2.0/24'', 0, 0.1)])) ''net1'' = [''not-a-cidr.32''] \<and>
   segment_addresses (projr (generate_compose
     [(''not-a-cidr'', 1, 0.1::real), (''10.0.2.0/24'', 0, 0.1)])) ''net2'' = []"
proof -
  let ?X = "[(''not-a-cidr'', 1, 0.1::real), (''10.0.2.0/24'', 0, 0.1)]"
  obtain d where d: "generate_compose ?X = Inr d"
    using generate_compose_returns by blast
  have malformed: "parse_cidr ''not-a-cidr'' = None"
    by (simp add: parse_cidr_def)
  have nets: "keys (networks d) = [''net1'', ''net2'']"
    using keys_networks [OF d] by (simp add: net_name_eval upt_rec)
  have svcs: "keys (services d) = [''proxy'', ''cidrx'', ''filebeat'', ''client1_1'']"
    using keys_services [OF d]
    by (simp add: enumerate_eq_zip upt_rec client_name_def str_int_def str_nat.simps digit_char_def)
  have "0 < length ?X" "?X ! 0 = (''not-a-cidr'', 1, 0.1)"
    by simp_all
  then have "segment_addresses d (net_name 0) = map (ipv4_address (base_of ''not-a-cidr'')) [1..1]"
    using d by (rule segment_addresses_closed)
  then have first: "segment_addresses d ''net1'' = [''not-a-cidr.32'']"
    by (simp add: net_name_eval base_of_def rsplit1_def ipv4_address_def str_int_def
        str_nat.simps digit_char_def)
  have "1 < length ?X" "?X ! 1 = (''10.0.2.0/24'', 0, 0.1)"
    by simp_all
  then have "segment_addresses d (net_name 1) = map (ipv4_address (base_of ''10.0.2.0/24'')) [1..0]"
    using d by (rule segment_addresses_closed)
  then have second: "segment_addresses d ''net2'' = []"
    by (simp add: net_name_eval)
  from d malformed nets svcs first second show ?thesis by simp
qed

text \<open>
  C5, as amended. The expansion does not validate its input and never fails with
  \<open>InvalidSpec\<close>: for every list of specs it returns a document with one network per
  spec, whose pool is the range string of the spec as given, well formed or not; a spec
  with a host count that is not positive gives a network without clients.
\<close>

theorem no_input_validation:
  "\<exists>d. generate_compose ranges = Inr d
     \<and> keys (networks d) = map net_name [0..<length ranges]
     \<and> (\<forall>i < length ranges.
          Option.bind (getitem (networks d) (net_name i)) pool = Some (fst (ranges ! i))
          \<and> (fst (snd (ranges ! i)) \<le> 0 \<longrightarrow> segment_addresses d (net_name i) = []))"
proof -
  obtain d where d: "generate_compose ranges = Inr d"
    using generate_compose_returns by blast
  have "Option.bind (getitem (networks d) (net_name i)) pool = Some (fst (ranges ! i))
        \<and> (fst (snd (ranges ! i)) \<le> 0 \<longrightarrow> segment_addresses d (net_name i) = [])"
    if i: "i < length ranges" for i
  proof -
    obtain subnet count interval where r: "ranges ! i = (subnet, count, interval)"
      by (cases "ranges ! i") auto
    from getitem_network [OF d i r] segment_addresses_closed [OF i r d] r
    show ?thesis by (simp add: pool_network_def)
  qed
  with d keys_networks [OF d] show ?thesis by auto
qed

theorem no_input_validation_witness:
  "\<exists>d. generate_compose [(''not-a-cidr'', 0, 0.1::real)] = Inr d
     \<and> keys (networks d) = [''net1'']
     \<and> Option.bind (getitem (networks d) ''net1'') pool = Some ''not-a-cidr''
     \<and> segment_addresses d ''net1'' = []"
  using no_input_validation [of "[(''not-a-cidr'', 0, 0.1::real)]"]
  by (simp add: net_name_eval)

text \<open>
  C6. In every expanded document each of the three infrastructure services proxy, cidrx
  and filebeat is a member of every network of the document: its networks are the keys
  of the document's network map, in the same order.
\<close>

theorem infrastructure_on_every_network:
  "\<exists>d proxy cidrx filebeat. generate_compose ranges = Inr d
     \<and> getitem (services d) ''proxy'' = Some proxy
     \<and> getitem (services d) ''cidrx'' = Some cidrx
     \<and> getitem (services d) ''filebeat'' = Some filebeat
     \<and> member_networks proxy = keys (networks d)
     \<and> member_networks cidrx = keys (networks d)
     \<and> member_networks filebeat = keys (networks d)"
proof -
  obtain d where d: "generate_compose ranges = Inr d"
    using generate_compose_returns by blast
  have "keys (proxy_nets (length ranges) :: 'a dict) = keys (networks d)"
    by (simp only: keys_proxy_nets keys_networks [OF d])
  with d getitem_infra [OF d] show ?thesis
    by (simp add: member_networks_infra)
qed

theorem infrastructure_on_every_network_witness:
  "\<exists>d proxy cidrx filebeat. generate_compose RANGES = Inr d
     \<and> keys (networks d) = [''net1'', ''net2'', ''net3'', ''net4'']
     \<and> getitem (services d) ''proxy'' = Some proxy
     \<and> getitem (services d) ''cidrx'' = Some cidrx
     \<and> getitem (services d) ''filebeat'' = Some filebeat
     \<and> member_networks proxy = [''net1'', ''net2'', ''net3'', ''net4'']
     \<and> member_networks cidrx = [''net1'', ''net2'', ''net3'', ''net4'']
     \<and> member_networks filebeat = [''net1'', ''net2'', ''net3'', ''net4'']"
proof -
  obtain d where d: "generate_compose RANGES = Inr d"
    using generate_compose_returns by blast
  have "keys (networks d) = [''net1'', ''net2'', ''net3'', ''net4'']"
    using keys_networks [OF d]
    by (simp add: RANGES_def upt_rec net_name_def str_int_def str_nat.simps digit_char_def)
  with d infrastructure_on_every_network [of RANGES] show ?thesis
    by auto
qed

text \<open>
  C7. In every expanded document proxy and cidrx declare no dependencies, filebeat
  depends on exactly proxy and cidrx, and every other service, that is every client,
  depends on exactly proxy.
\<close>

theorem dependency_sets:
  "\<exists>d. generate_compose ranges = Inr d \<and>
     (\<forall>(name, svc) \<in> set (services d).
        depends_on svc =
          (if name = ''proxy'' \<or> name = ''cidrx'' then []
           else if name = ''filebeat'' then [''proxy'', ''cidrx'']
           else [''proxy'']))"
proof -
  obtain d where d: "generate_compose ranges = Inr d"
    using generate_compose_returns by blast
  have "depends_on svc =
          (if name = ''proxy'' \<or> name = ''cidrx'' then []
           else if name = ''filebeat'' then [''proxy'', ''cidrx'']
           else [''proxy''])"
    if "(name, svc) \<in> set (services d)" for name svc
    using services_cases [OF d that]
  proof
    assume "(name, svc) \<in> set (infra_services (length ranges))"
    then show ?thesis
      by (auto simp: infra_services_def depends_on_services)
  next
    assume "\<exists>i subnet count interval j. i < length ranges \<and> ranges ! i = (subnet, count, interval)
            \<and> 1 \<le> j \<and> j \<le> count \<and> name = client_name i j
            \<and> svc = client_service name (net_name i) (base_of subnet) interval j"
    then obtain i subnet interval j where "name = client_name i j"
        "svc = client_service name (net_name i) (base_of subnet) interval j"
      by blast
    then show ?thesis
      by (simp add: depends_on_services client_name_not_infra)
  qed
  with d show ?thesis by auto
qed

theorem dependency_sets_witness:
  "\<exists>d. generate_compose [(''10.0.1.0/24'', 2, 0.1::real)] = Inr d
     \<and> map (\<lambda>(name, svc). (name, depends_on svc)) (services d) =
         [(''proxy'', []), (''cidrx'', []), (''filebeat'', [''proxy'', ''cidrx'']),
          (''client1_1'', [''proxy'']), (''client1_2'', [''proxy''])]"
proof -
  obtain d where d: "generate_compose [(''10.0.1.0/24'', 2, 0.1::real)] = Inr d"
    using generate_compose_returns by blast
  have names: "map fst (services d) = [''proxy'', ''cidrx'', ''filebeat'', ''client1_1'', ''client1_2'']"
    using keys_services [OF d]
    by (simp add: keys_def enumerate_eq_zip upto_1_2 client_name_def str_int_def str_nat.simps
        digit_char_def)
  from dependency_sets [of "[(''10.0.1.0/24'', 2, 0.1::real)]"] d
  have deps: "\<forall>(name, svc) \<in> set (services d).
        depends_on svc =
          (if name = ''proxy'' \<or> name = ''cidrx'' then []
           else if name = ''filebeat'' then [''proxy'', ''cidrx'']
           else [''proxy''])"
    by simp
  from names obtain p c f c1 c2 where
    s: "services d = [(''proxy'', p), (''cidrx'', c), (''filebeat'', f), (''client1_1'', c1), (''client1_2'', c2)]"
    by (auto simp: map_eq_Cons_conv)
  from deps show ?thesis
    unfolding s using d s by simp
qed

text \<open>
  C8. Every expanded document is referentially closed: every network that a service is a
  member of is a key of the document's networks, and every service that a service depends
  on is a key of the document's services.
\<close>

theorem referentially_closed:
  "\<exists>d. generate_compose ranges = Inr d \<and>
     (\<forall>(name, svc) \<in> set (services d).
        set (member_networks svc) \<subseteq> set (keys (networks d)) \<and>
        set (depends_on svc) \<subseteq> set (keys (services d)))"
proof -
  obtain d where d: "generate_compose ranges = Inr d"
    using generate_compose_returns by blast
  have nets: "keys (networks d) = map net_name [0..<length ranges]"
    using d by (rule keys_networks)
  have infra: "{''proxy'', ''cidrx''} \<subseteq> set (keys (services d))"
    by (simp add: keys_services [OF d])
  have "set (member_networks svc) \<subseteq> set (keys (networks d)) \<and>
        set (depends_on svc) \<subseteq> set (keys (services d))"
    if "(name, svc) \<in> set (services d)" for name svc
    using services_cases [OF d that]
  proof
    assume "(name, svc) \<in> set (infra_services (length ranges))"
    then have "member_networks svc = keys (networks d)"
      and "set (depends_on svc) \<subseteq> {''proxy'', ''cidrx''}"
      by (auto simp: infra_services_def member_networks_infra depends_on_services nets
          keys_proxy_nets)
    with infra show ?thesis by auto
  next
    assume "\<exists>i subnet count interval j. i < length ranges \<and> ranges ! i = (subnet, count, interval)
            \<and> 1 \<le> j \<and> j \<le> count \<and> name = client_name i j
            \<and> svc = client_service name (net_name i) (base_of subnet) interval j"
    then obtain i subnet interval j where i: "i < length ranges"
        and svc: "svc = client_service name (net_name i) (base_of subnet) interval j"
      by blast
    from i have "net_name i \<in> set (keys (networks d))"
      by (simp add: nets)
    with infra show ?thesis
      by (simp add: svc member_networks_client depends_on_services)
  qed
  with d show ?thesis by auto
qed

theorem referentially_closed_witness:
  "\<exists>d. generate_compose RANGES = Inr d \<and>
     list_all (\<lambda>(name, svc).
        set (member_networks svc) \<subseteq> {''net1'', ''net2'', ''net3'', ''net4''} \<and>
        set (depends_on svc) \<subseteq> set (keys (services d))) (services d)"
proof -
  obtain d where d: "generate_compose RANGES = Inr d"
    using generate_compose_returns by blast
  have "keys (networks d) = [''net1'', ''net2'', ''net3'', ''net4'']"
    using keys_networks [OF d]
    by (simp add: RANGES_def upt_rec net_name_def str_int_def str_nat.simps digit_char_def)
  with d referentially_closed [of RANGES] show ?thesis
    by (auto simp: list_all_iff)
qed

text \<open>
  C9. Whenever the output file can be opened, the script writes to it the serialisation,
  with \<open>sort_keys=False\<close>, of the document whose services are proxy, cidrx, filebeat
  and then, for each segment in the order of the input, its clients in the order of their
  slots, and whose networks are in the order of the input; no key occurs twice. When the
  serialiser writes no two documents as the same text, this is the only document that
  the written text stands for. Regenerating is reproducible: a second run leaves every
  file as the first run left it, and a run from any other state of the files, whatever the
  output file held before, writes the same text.
\<close>

theorem emitted_order_reproducible:
  assumes "writable e OUTPUT_FILE"
  shows "\<exists>e' written svcs nets vols.
       run dump ranges e = Inr e'
     \<and> files e' OUTPUT_FILE = Some written
     \<and> written = dump False (YDict [(''services'', YDict svcs), (''networks'', YDict nets),
                                 (''volumes'', YDict vols)])
     \<and> keys svcs =
         [''proxy'', ''cidrx'', ''filebeat''] @
         concat (map (\<lambda>(i, (subnet, count, interval)). map (client_name i) [1..count])
                     (enumerate 0 ranges))
     \<and> keys nets = map net_name [0..<length ranges]
     \<and> distinct (keys svcs) \<and> distinct (keys nets)
     \<and> ((\<forall>v w. dump False v = dump False w \<longrightarrow> v = w) \<longrightarrow>
          (\<forall>doc. dump False doc = written \<longrightarrow>
             doc = YDict [(''services'', YDict svcs), (''networks'', YDict nets),
                          (''volumes'', YDict vols)]))
     \<and> (\<exists>e''. run dump ranges e' = Inr e'' \<and> files e'' = files e')
     \<and> (\<forall>other. writable other OUTPUT_FILE \<longrightarrow>
          (\<exists>other'. run dump ranges other = Inr other' \<and> files other' OUTPUT_FILE = Some written))"
proof -
  obtain c where c: "generate_compose ranges = Inr c"
    using generate_compose_returns by blast
  let ?text = "dump False (compose_dict c)"
  let ?e' = "e\<lparr>files := (files e)(OUTPUT_FILE \<mapsto> ?text), stdout := stdout e @ [summary c]\<rparr>"
  have first: "run dump ranges e = Inr ?e'"
    using c assms by (rule run_writes)
  have content: "files ?e' OUTPUT_FILE = Some ?text"
    by simp
  have doc: "?text = dump False (YDict [(''services'', YDict (services c)),
      (''networks'', YDict (networks c)), (''volumes'', YDict (volumes c))])"
    by (simp add: compose_dict_def)
  have dn: "distinct (keys (networks c))"
    by (simp only: keys_networks [OF c] distinct_net_names)
  have unique: "(\<forall>v w. dump False v = dump False w \<longrightarrow> v = w) \<longrightarrow>
          (\<forall>doc. dump False doc = ?text \<longrightarrow>
             doc = YDict [(''services'', YDict (services c)), (''networks'', YDict (networks c)),
                          (''volumes'', YDict (volumes c))])"
    by (auto simp: compose_dict_def)
  have "writable ?e' OUTPUT_FILE"
    using assms by simp
  with c have "run dump ranges ?e' =
      Inr (?e'\<lparr>files := (files ?e')(OUTPUT_FILE \<mapsto> ?text),
                 stdout := stdout ?e' @ [summary c]\<rparr>)"
    by (rule run_writes)
  then have again: "\<exists>e''. run dump ranges ?e' = Inr e'' \<and> files e'' = files ?e'"
    by simp
  have anywhere: "\<forall>other. writable other OUTPUT_FILE \<longrightarrow>
          (\<exists>other'. run dump ranges other = Inr other' \<and> files other' OUTPUT_FILE = Some ?text)"
    by (simp add: run_writes [OF c])
  show ?thesis
    apply (rule exI [of _ ?e'])
    apply (rule exI [of _ ?text])
    apply (rule exI [of _ "services c"])
    apply (rule exI [of _ "networks c"])
    apply (rule exI [of _ "volumes c"])
    apply (intro conjI)
             apply (rule first)
            apply (rule content)
           apply (rule doc)
          apply (rule keys_services [OF c])
         apply (rule keys_networks [OF c])
        apply (rule distinct_services [OF c])
       apply (rule dn)
      apply (rule unique)
     apply (rule again)
    apply (rule anywhere)
    done
qed

theorem emitted_order_reproducible_witness:
  "\<exists>e' written svcs nets vols.
       run (\<lambda>sort_keys. enc) [(''10.0.1.0/24'', 2, ''0.1'')]
         \<lparr>files = Map.empty, writable = (\<lambda>path. True), stdout = []\<rparr> = Inr e'
     \<and> files e' ''docker-compose.yml'' = Some written
     \<and> written = enc (YDict [(''services'', YDict svcs), (''networks'', YDict nets),
                          (''volumes'', YDict vols)])
     \<and> written \<noteq> enc (YDict [(''networks'', YDict nets), (''services'', YDict svcs),
                             (''volumes'', YDict vols)])
     \<and> keys svcs = [''proxy'', ''cidrx'', ''filebeat'', ''client1_1'', ''client1_2'']
     \<and> keys nets = [''net1'']
     \<and> (\<exists>e''. run (\<lambda>sort_keys. enc) [(''10.0.1.0/24'', 2, ''0.1'')] e' = Inr e''
            \<and> files e'' = files e')
     \<and> (\<exists>other'. run (\<lambda>sort_keys. enc) [(''10.0.1.0/24'', 2, ''0.1'')]
            \<lparr>files = Map.empty(''docker-compose.yml'' \<mapsto> ''stale''), writable = (\<lambda>path. True),
             stdout = [''earlier output'']\<rparr> = Inr other'
            \<and> files other' ''docker-compose.yml'' = Some written)"
proof -
  let ?R = "[(''10.0.1.0/24'', 2::int, ''0.1'')]"
  let ?E = "\<lparr>files = Map.empty, writable = (\<lambda>path. True), stdout = []\<rparr>"
  let ?O = "\<lparr>files = Map.empty(''docker-compose.yml'' \<mapsto> ''stale''), writable = (\<lambda>path. True),
             stdout = [''earlier output'']\<rparr>"
  have w: "writable ?E OUTPUT_FILE" "writable ?O OUTPUT_FILE"
    by simp_all
  from emitted_order_reproducible [OF w(1), of "\<lambda>sort_keys. enc" ?R]
  obtain e' written svcs nets vols where all:
    "run (\<lambda>sort_keys. enc) ?R ?E = Inr e'
     \<and> files e' OUTPUT_FILE = Some written
     \<and> written = enc (YDict [(''services'', YDict svcs), (''networks'', YDict nets),
                          (''volumes'', YDict vols)])
     \<and> keys svcs = [''proxy'', ''cidrx'', ''filebeat''] @
         concat (map (\<lambda>(i, (subnet, count, interval)). map (client_name i) [1..count])
                     (enumerate 0 ?R))
     \<and> keys nets = map net_name [0..<length ?R]
     \<and> distinct (keys svcs) \<and> distinct (keys nets)
     \<and> ((\<forall>v w. enc v = enc w \<longrightarrow> v = w) \<longrightarrow>
          (\<forall>doc. enc doc = written \<longrightarrow>
             doc = YDict [(''services'', YDict svcs), (''networks'', YDict nets),
                          (''volumes'', YDict vols)]))
     \<and> (\<exists>e''. run (\<lambda>sort_keys. enc) ?R e' = Inr e'' \<and> files e'' = files e')
     \<and> (\<forall>other. writable other OUTPUT_FILE \<longrightarrow>
          (\<exists>other'. run (\<lambda>sort_keys. enc) ?R other = Inr other'
             \<and> files other' OUTPUT_FILE = Some written))"
    by (elim exE) (rule that)
  note r = all [THEN conjunct1] and all1 = all [THEN conjunct2]
  note f = all1 [THEN conjunct1] and all2 = all1 [THEN conjunct2]
  note t = all2 [THEN conjunct1] and all3 = all2 [THEN conjunct2]
  note ks = all3 [THEN conjunct1] and all4 = all3 [THEN conjunct2]
  note kn = all4 [THEN conjunct1] and all5 = all4 [THEN conjunct2, THEN conjunct2, THEN conjunct2]
  note u = all5 [THEN conjunct1] and all6 = all5 [THEN conjunct2]
  note again = all6 [THEN conjunct1] and anywhere = all6 [THEN conjunct2]
  have inj: "\<forall>v w. enc v = enc w \<longrightarrow> v = w"
    by (auto dest: enc_inj)
  have ne: "written \<noteq> enc (YDict [(''networks'', YDict nets), (''services'', YDict svcs),
                             (''volumes'', YDict vols)])"
  proof
    assume "written = enc (YDict [(''networks'', YDict nets), (''services'', YDict svcs),
                             (''volumes'', YDict vols)])"
    then have "enc (YDict [(''networks'', YDict nets), (''services'', YDict svcs),
                             (''volumes'', YDict vols)]) = written"
      by (rule sym)
    then have "YDict [(''networks'', YDict nets), (''services'', YDict svcs), (''volumes'', YDict vols)]
        = YDict [(''services'', YDict svcs), (''networks'', YDict nets), (''volumes'', YDict vols)]"
      by (rule u [THEN mp, OF inj, THEN spec, THEN mp])
    then show False by simp
  qed
  from ks have ks': "keys svcs = [''proxy'', ''cidrx'', ''filebeat'', ''client1_1'', ''client1_2'']"
    by (simp add: enumerate_eq_zip upto_1_2 client_name_def str_int_def str_nat.simps digit_char_def)
  from kn have kn': "keys nets = [''net1'']"
    by (simp add: net_name_eval)
  have other: "\<exists>other'. run (\<lambda>sort_keys. enc) ?R ?O = Inr other'
      \<and> files other' OUTPUT_FILE = Some written"
    by (rule anywhere [THEN spec, THEN mp, OF w(2)])
  show ?thesis
    apply (rule exI [of _ e'])
    apply (rule exI [of _ written])
    apply (rule exI [of _ svcs])
    apply (rule exI [of _ nets])
    apply (rule exI [of _ vols])
    apply (intro conjI)
           apply (rule r)
          apply (rule f [unfolded OUTPUT_FILE_def])
         apply (rule t)
        apply (rule ne)
       apply (rule ks')
      apply (rule kn')
     apply (rule again)
    apply (rule other [unfolded OUTPUT_FILE_def])
    done
qed

text \<open>
  C10. The address of a client depends only on its slot and on the text of the range
  before its last dot. For two ranges that agree up to their last dot, whatever follows
  it (the last octet and the prefix length), and for every slot that both segments have,
  the two clients get the same address: the common text, a dot and 31 + slot.
\<close>

theorem address_ignores_prefix_length:
  assumes "i1 < length ranges1" and "ranges1 ! i1 = (b @ CHR ''.'' # t1, count1, interval1)"
      and "i2 < length ranges2" and "ranges2 ! i2 = (b @ CHR ''.'' # t2, count2, interval2)"
      and "CHR ''.'' \<notin> set t1" and "CHR ''.'' \<notin> set t2"
      and "1 \<le> j" and "j \<le> count1" and "j \<le> count2"
  shows "\<exists>d1 d2 svc1 svc2.
           generate_compose ranges1 = Inr d1 \<and> generate_compose ranges2 = Inr d2
         \<and> getitem (services d1) (client_name i1 j) = Some svc1
         \<and> getitem (services d2) (client_name i2 j) = Some svc2
         \<and> assigned_address (net_name i1) svc1 = Some (b @ ''.'' @ str_int (31 + j))
         \<and> assigned_address (net_name i2) svc2 = Some (b @ ''.'' @ str_int (31 + j))"
proof -
  obtain d1 where d1: "generate_compose ranges1 = Inr d1"
    using generate_compose_returns by blast
  obtain d2 where d2: "generate_compose ranges2 = Inr d2"
    using generate_compose_returns by blast
  have b1: "base_of (b @ CHR ''.'' # t1) = b" and b2: "base_of (b @ CHR ''.'' # t2) = b"
    using assms(5,6) by (simp_all add: base_of_last_dot)
  let ?svc1 = "client_service (client_name i1 j) (net_name i1) b interval1 j"
  let ?svc2 = "client_service (client_name i2 j) (net_name i2) b interval2 j"
  have s1: "getitem (services d1) (client_name i1 j) = Some ?svc1"
    using getitem_client [OF d1 assms(1,2,7,8)] by (simp only: b1)
  have s2: "getitem (services d2) (client_name i2 j) = Some ?svc2"
    using getitem_client [OF d2 assms(3,4,7,9)] by (simp only: b2)
  have a1: "assigned_address (net_name i1) ?svc1 = Some (b @ ''.'' @ str_int (31 + j))"
    and a2: "assigned_address (net_name i2) ?svc2 = Some (b @ ''.'' @ str_int (31 + j))"
    by (simp_all add: assigned_address_client ipv4_address_def)
  show ?thesis
    by (intro exI conjI) (rule d1, rule d2, rule s1, rule s2, rule a1, rule a2)
qed

theorem address_ignores_prefix_length_witness:
  "\<exists>d1 d2 svc1 svc2.
       generate_compose [(''10.0.1.0/24'', 2, 0.1::real)] = Inr d1
     \<and> generate_compose [(''10.0.1.128/25'', 2, 0.1::real)] = Inr d2
     \<and> getitem (services d1) ''client1_2'' = Some svc1
     \<and> getitem (services d2) ''client1_2'' = Some svc2
     \<and> assigned_address ''net1'' svc1 = Some ''10.0.1.33''
     \<and> assigned_address ''net1'' svc2 = Some ''10.0.1.33''"
proof -
  have name: "client_name 0 2 = ''client1_2''"
    by (simp add: client_name_def str_int_def str_nat.simps digit_char_def)
  have addr: "''10.0.1'' @ ''.'' @ str_int (31 + 2) = ''10.0.1.33''"
    by (simp add: str_int_def str_nat.simps digit_char_def)
  have "\<exists>d1 d2 svc1 svc2.
           generate_compose [(''10.0.1.0/24'', 2, 0.1::real)] = Inr d1
         \<and> generate_compose [(''10.0.1.128/25'', 2, 0.1::real)] = Inr d2
         \<and> getitem (services d1) (client_name 0 2) = Some svc1
         \<and> getitem (services d2) (client_name 0 2) = Some svc2
         \<and> assigned_address (net_name 0) svc1 = Some (''10.0.1'' @ ''.'' @ str_int (31 + 2))
         \<and> assigned_address (net_name 0) svc2 = Some (''10.0.1'' @ ''.'' @ str_int (31 + 2))"
    by (rule address_ignores_prefix_length
        [where ?t1.0 = "''0/24''" and ?t2.0 = "''128/25''" and ?count1.0 = 2 and ?count2.0 = 2
           and ?interval1.0 = "0.1" and ?interval2.0 = "0.1"]) simp_all
  then show ?thesis
    by (simp only: name addr net_name_eval)
qed

end
